theory Spec2Isabelle
  imports Main "HOL-Library.Word" "HOL-Library.Signed_Division"
begin

section \<open>Instants\<close>

text \<open>
  A \<^verbatim>\<open>time.Time\<close> is modelled by the number of nanoseconds that separate it from Go's
  zero instant (January 1, year 1, 00:00 UTC), so the zero value of the type is \<open>0\<close>.
  \<^verbatim>\<open>IsZero\<close>, \<^verbatim>\<open>Before\<close> and \<^verbatim>\<open>Unix\<close> are the three methods the repository calls.
  The clock (\<^verbatim>\<open>time.Now\<close>, or the injectable \<^verbatim>\<open>Now\<close> field of the LRU engine)
  is an argument \<open>now\<close> of every operation that reads it.
\<close>

type_synonym time = int

definition IsZero :: "time \<Rightarrow> bool" where
  "IsZero t = (t = 0)"

definition Before :: "time \<Rightarrow> time \<Rightarrow> bool" where
  "Before t u = (t < u)"

definition Unix :: "time \<Rightarrow> int" where
  "Unix t = t div 1000000000 - 62135596800"

section \<open>The LRU engine (lru/lru.go)\<close>

text \<open>
  The engine is generic in its values: the interface \<^verbatim>\<open>Value\<close> has the single method
  \<^verbatim>\<open>Len\<close>, which is the function argument \<open>vlen\<close> of the operations below. It
  returns an \<^verbatim>\<open>int\<close>, and nothing in the engine keeps it from being negative.

  The doubly linked list \<^verbatim>\<open>ll\<close> is the list of its entries, front first. The map
  \<^verbatim>\<open>cache\<close> sends a key to its list node, which is represented by the entry the node
  holds; an update of the entry through the node pointer is written to both.
  The counters \<^verbatim>\<open>maxCapacity\<close> and \<^verbatim>\<open>curCapacity\<close> are \<^verbatim>\<open>int64\<close> in the
  source: every sum and difference the code computes on them is reduced to the range from
  \<open>-2^63\<close> to \<open>2^63 - 1\<close> by \<open>int64\<close>, which is also the conversion
  \<^verbatim>\<open>int64(...)\<close> of the source and leaves a number of that range as it is.
  The field \<open>evicted\<close> records the arguments of the successive calls of the callback
  \<^verbatim>\<open>OnEvicted\<close> made by \<^verbatim>\<open>removeElement\<close>, oldest first (a nil callback
  drops them). An engine built by \<^verbatim>\<open>New\<close> never has a nil map, so the nil checks
  that open \<^verbatim>\<open>Add\<close>, \<^verbatim>\<open>Get\<close> and \<^verbatim>\<open>RemoveOldest\<close> never fire.
\<close>

definition int64 :: "int \<Rightarrow> int" where
  "int64 x = (x + 9223372036854775808) mod 18446744073709551616 - 9223372036854775808"

record 'v entry =
  key :: string
  val :: 'v
  expire :: time

record 'v LRUCache =
  maxCapacity :: int
  curCapacity :: int
  ll :: "'v entry list"
  cache :: "string \<rightharpoonup> 'v entry"
  evicted :: "(string \<times> 'v) list"

definition New :: "int \<Rightarrow> 'v LRUCache" where
  "New maxCap = \<lparr>maxCapacity = maxCap, curCapacity = 0, ll = [], cache = Map.empty, evicted = []\<rparr>"

definition MoveToFront :: "'a list \<Rightarrow> 'a \<Rightarrow> 'a list" where
  "MoveToFront xs node = (if node \<in> set xs then node # remove1 node xs else xs)"

definition entry_bytes :: "('v \<Rightarrow> int) \<Rightarrow> 'v entry \<Rightarrow> int" where
  "entry_bytes vlen kv = int (length (key kv)) + vlen (val kv)"

definition removeElement :: "('v \<Rightarrow> int) \<Rightarrow> 'v LRUCache \<Rightarrow> 'v entry \<Rightarrow> 'v LRUCache" where
  "removeElement vlen c node =
     c\<lparr>ll := remove1 node (ll c),
       cache := (cache c)(key node := None),
       curCapacity := int64 (curCapacity c - int64 (entry_bytes vlen node)),
       evicted := evicted c @ [(key node, val node)]\<rparr>"

definition RemoveOldest :: "('v \<Rightarrow> int) \<Rightarrow> 'v LRUCache \<Rightarrow> 'v LRUCache" where
  "RemoveOldest vlen c = (if ll c = [] then c else removeElement vlen c (last (ll c)))"

text \<open>
  The loop that ends \<^verbatim>\<open>Add\<close>. \<^verbatim>\<open>RemoveOldest\<close> does nothing on an empty list, so
  the loop of the source spins forever when the list is empty and the counter still exceeds
  the capacity (a negative capacity does that); not returning is the value \<open>None\<close>.
\<close>

partial_function (option) evictLoop :: "('v \<Rightarrow> int) \<Rightarrow> 'v LRUCache \<Rightarrow> 'v LRUCache option" where
  "evictLoop vlen c =
     (if maxCapacity c \<noteq> 0 \<and> maxCapacity c < curCapacity c
      then evictLoop vlen (RemoveOldest vlen c)
      else Some c)"

text \<open>
  The branch of \<^verbatim>\<open>Add\<close> that precedes the loop: update in place, or insert at the front.
  The node the map yields is a node of the list; \<^verbatim>\<open>MoveToFront\<close> takes it out and puts
  it first, and the assignments to \<^verbatim>\<open>kv.value\<close> and \<^verbatim>\<open>kv.expire\<close> change it there.
\<close>

definition Add_store :: "('v \<Rightarrow> int) \<Rightarrow> 'v LRUCache \<Rightarrow> string \<Rightarrow> 'v \<Rightarrow> time \<Rightarrow> 'v LRUCache" where
  "Add_store vlen c k v ex =
     (case cache c k of
        Some node \<Rightarrow>
          let node' = node\<lparr>val := v, expire := ex\<rparr> in
          c\<lparr>ll := node' # remove1 node (ll c),
            cache := (cache c)(k \<mapsto> node'),
            curCapacity := int64 (curCapacity c + int64 (vlen v - vlen (val node)))\<rparr>
      | None \<Rightarrow>
          let node = \<lparr>key = k, val = v, expire = ex\<rparr> in
          c\<lparr>ll := node # ll c,
            cache := (cache c)(k \<mapsto> node),
            curCapacity := int64 (curCapacity c + int64 (int (length k) + vlen v))\<rparr>)"

definition Add :: "('v \<Rightarrow> int) \<Rightarrow> 'v LRUCache \<Rightarrow> string \<Rightarrow> 'v \<Rightarrow> time \<Rightarrow> 'v LRUCache option" where
  "Add vlen c k v ex = evictLoop vlen (Add_store vlen c k v ex)"

text \<open>\<^verbatim>\<open>Get\<close> returns the engine it leaves and the value found (\<open>None\<close> for \<^verbatim>\<open>ok = false\<close>).\<close>

definition Get :: "('v \<Rightarrow> int) \<Rightarrow> 'v LRUCache \<Rightarrow> string \<Rightarrow> time \<Rightarrow> 'v LRUCache \<times> 'v option" where
  "Get vlen c k now =
     (case cache c k of
        None \<Rightarrow> (c, None)
      | Some node \<Rightarrow>
          if \<not> IsZero (expire node) \<and> Before (expire node) now
          then (removeElement vlen c node, None)
          else (c\<lparr>ll := MoveToFront (ll c) node\<rparr>, Some (val node)))"

definition Len_lru :: "'v LRUCache \<Rightarrow> nat" where
  "Len_lru c = length (ll c)"

text \<open>
  A finite run of the public operations. \<^verbatim>\<open>Get\<close> reads the clock once, so each
  \<open>OpGet\<close> carries the instant its call observes.
\<close>

datatype 'v op = OpAdd string 'v time | OpGet string time | OpRemoveOldest

fun run_ops :: "('v \<Rightarrow> int) \<Rightarrow> 'v LRUCache \<Rightarrow> 'v op list \<Rightarrow> 'v LRUCache option" where
  "run_ops vlen c [] = Some c"
| "run_ops vlen c (OpAdd k v ex # ops) =
     (case Add vlen c k v ex of None \<Rightarrow> None | Some c' \<Rightarrow> run_ops vlen c' ops)"
| "run_ops vlen c (OpGet k now # ops) = run_ops vlen (fst (Get vlen c k now)) ops"
| "run_ops vlen c (OpRemoveOldest # ops) = run_ops vlen (RemoveOldest vlen c) ops"

text \<open>The bytes the live entries account for: \<open>len(key) + value.Len()\<close> over the list.\<close>

definition live_bytes :: "('v \<Rightarrow> int) \<Rightarrow> 'v LRUCache \<Rightarrow> int" where
  "live_bytes vlen c = sum_list (map (entry_bytes vlen) (ll c))"

text \<open>The map that indexes a list of entries by key.\<close>

definition index_of :: "'v entry list \<Rightarrow> string \<rightharpoonup> 'v entry" where
  "index_of xs = map_of (map (\<lambda>e. (key e, e)) xs)"

text \<open>
  The representation invariant of the engine: the keys of the list are distinct, the map
  is the index of the list (I1), and the counter is the sum of the entry sizes as an
  \<^verbatim>\<open>int64\<close>. An engine is exact when the counter is the sum itself (I2) and does not
  exceed the capacity (I3), no entry having a negative length.
\<close>

definition lru_inv :: "('v \<Rightarrow> int) \<Rightarrow> 'v LRUCache \<Rightarrow> bool" where
  "lru_inv vlen c =
     (distinct (map key (ll c)) \<and> cache c = index_of (ll c) \<and>
      curCapacity c = int64 (live_bytes vlen c))"

definition lru_ok :: "('v \<Rightarrow> int) \<Rightarrow> 'v LRUCache \<Rightarrow> bool" where
  "lru_ok vlen c = (lru_inv vlen c \<and> 0 \<le> maxCapacity c)"

definition lru_exact :: "('v \<Rightarrow> int) \<Rightarrow> 'v LRUCache \<Rightarrow> bool" where
  "lru_exact vlen c = (lru_ok vlen c \<and> curCapacity c = live_bytes vlen c \<and>
     curCapacity c \<le> maxCapacity c \<and> list_all (\<lambda>e. 0 \<le> vlen (val e)) (ll c))"

text \<open>
  The entries a run adds fit the engine: none has a negative length, and with each of them on
  top of a full engine the counter stays below \<open>2^63\<close>.
\<close>

fun add_fits :: "int \<Rightarrow> ('v \<Rightarrow> int) \<Rightarrow> 'v op \<Rightarrow> bool" where
  "add_fits maxBytes vlen (OpAdd k v ex) =
     (0 \<le> vlen v \<and> maxBytes + int (length k) + vlen v < 9223372036854775808)"
| "add_fits maxBytes vlen (OpGet k now) = True"
| "add_fits maxBytes vlen OpRemoveOldest = True"

definition adds_fit :: "int \<Rightarrow> ('v \<Rightarrow> int) \<Rightarrow> 'v op list \<Rightarrow> bool" where
  "adds_fit maxBytes vlen ops = list_all (add_fits maxBytes vlen) ops"

text \<open>Values that are strings: \<^verbatim>\<open>Len\<close> is the number of bytes.\<close>

definition str_len :: "string \<Rightarrow> int" where
  "str_len v = int (length v)"

text \<open>Scenario S1 of the specification: four insertions that never expire, capacity 10.\<close>

definition S1_ops :: "string op list" where
  "S1_ops = [OpAdd ''a'' ''1'' 0, OpAdd ''b'' ''22'' 0, OpAdd ''c'' ''333'' 0, OpAdd ''d'' ''4444'' 0]"

text \<open>
  Values that are numbers and report themselves as their length. The first run adds, to an
  engine of capacity 10, a value that reports the largest length an \<^verbatim>\<open>int\<close> holds; the
  second adds a value of negative length, then one of length 13, and removes the oldest.
\<close>

definition huge_ops :: "int op list" where
  "huge_ops = [OpAdd ''k'' 9223372036854775807 0]"

definition negative_ops :: "int op list" where
  "negative_ops = [OpAdd ''a'' (- 5) 0, OpAdd ''b'' 13 0, OpRemoveOldest]"

section \<open>The consistent-hash ring (consistenthash/consistenthash.go)\<close>

text \<open>
  \<^verbatim>\<open>Map\<close> of package consistenthash is the record \<open>CMap\<close>; its operations carry the
  prefix \<open>ch\<close>. The hash function is a field, as in the source, and yields a \<^verbatim>\<open>uint32\<close>;
  \<^verbatim>\<open>int(...)\<close> of it is its unsigned value (\<^verbatim>\<open>int\<close> has 64 bits on the platforms the
  repository targets). A missing key of \<^verbatim>\<open>hashMap\<close> reads as the empty string.
\<close>

record CMap =
  hash :: "string \<Rightarrow> 32 word"
  replicas :: int
  ring :: "int list"
  hashMap :: "int \<rightharpoonup> string"

definition ch_New :: "int \<Rightarrow> (string \<Rightarrow> 32 word) \<Rightarrow> CMap" where
  "ch_New n fn = \<lparr>hash = fn, replicas = n, ring = [], hashMap = Map.empty\<rparr>"

text \<open>\<^verbatim>\<open>strconv.Itoa\<close> on the loop counter, which is never negative.\<close>

function Itoa :: "nat \<Rightarrow> string" where
  "Itoa n = (if n < 10 then [''0123456789'' ! n] else Itoa (n div 10) @ [''0123456789'' ! (n mod 10)])"
  by pat_completeness auto
termination
  by (relation "measure id") auto

declare Itoa.simps [simp del]

text \<open>The body of the inner loop of \<^verbatim>\<open>Add\<close>: one virtual node of \<open>k\<close>.\<close>

definition ch_add_virtual :: "string \<Rightarrow> nat \<Rightarrow> CMap \<Rightarrow> CMap" where
  "ch_add_virtual k i m =
     (let h = uint (hash m (Itoa i @ k))
      in m\<lparr>ring := ring m @ [h], hashMap := (hashMap m)(h \<mapsto> k)\<rparr>)"

definition ch_add_key :: "string \<Rightarrow> CMap \<Rightarrow> CMap" where
  "ch_add_key k m = fold (ch_add_virtual k) [0 ..< nat (replicas m)] m"

definition ch_Add :: "CMap \<Rightarrow> string list \<Rightarrow> CMap" where
  "ch_Add m keys = (let m' = fold ch_add_key keys m in m'\<lparr>ring := sort (ring m')\<rparr>)"

text \<open>
  \<^verbatim>\<open>sort.Search(n, f)\<close> of the Go library: binary search for the least index in
  \<open>[0, n)\<close> at which \<open>f\<close> holds, \<open>n\<close> if there is none.
\<close>

function search_loop :: "(nat \<Rightarrow> bool) \<Rightarrow> nat \<Rightarrow> nat \<Rightarrow> nat" where
  "search_loop f i j =
     (if i < j
      then (let h = (i + j) div 2
            in if \<not> f h then search_loop f (h + 1) j else search_loop f i h)
      else i)"
  by pat_completeness auto
termination
  by (relation "measure (\<lambda>(f, i, j). j - i)") auto

declare search_loop.simps [simp del]

definition Search :: "nat \<Rightarrow> (nat \<Rightarrow> bool) \<Rightarrow> nat" where
  "Search n f = search_loop f 0 n"

definition ch_Get :: "CMap \<Rightarrow> string \<Rightarrow> string" where
  "ch_Get m k =
     (if length (ring m) = 0 then ''''
      else (let h = uint (hash m k);
                idx = Search (length (ring m)) (\<lambda>i. ring m ! i \<ge> h)
            in case hashMap m (ring m ! (idx mod length (ring m))) of
                 None \<Rightarrow> ''''
               | Some peer \<Rightarrow> peer))"

text \<open>A ring as the code builds it: \<^verbatim>\<open>New\<close>, then any number of calls of \<^verbatim>\<open>Add\<close>.\<close>

definition ch_build :: "int \<Rightarrow> (string \<Rightarrow> 32 word) \<Rightarrow> string list list \<Rightarrow> CMap" where
  "ch_build n fn batches = fold (\<lambda>keys m. ch_Add m keys) batches (ch_New n fn)"

text \<open>
  Modelled from the spec: the injected identity hash of scenario S4, which belongs to a test
  that is not among the source files. It reads its argument as a decimal number, so the
  virtual node \<open>"0" + "6"\<close> hashes to 6.
\<close>

definition digit_val :: "char \<Rightarrow> nat" where
  "digit_val ch = of_char ch - 48"

definition identity_hash :: "string \<Rightarrow> 32 word" where
  "identity_hash s = of_nat (fold (\<lambda>ch n. 10 * n + digit_val ch) s 0)"

text \<open>What \<^verbatim>\<open>Add\<close> maintains: the ring is sorted and every hash on it has a peer.\<close>

definition ch_ok :: "CMap \<Rightarrow> bool" where
  "ch_ok m = (sorted (ring m) \<and> set (ring m) \<subseteq> dom (hashMap m))"

section \<open>Outcomes of calls\<close>

text \<open>
  A call returns, panics (the message is kept) or never returns. A panic is not recovered
  anywhere in the repository, so it ends the process.
\<close>

datatype 'a outcome = is_Return: Return 'a | is_Panic: Panic string | Hang

definition obind :: "'a outcome \<Rightarrow> ('a \<Rightarrow> 'b outcome) \<Rightarrow> 'b outcome" where
  "obind x f = (case x of Return a \<Rightarrow> f a | Panic p \<Rightarrow> Panic p | Hang \<Rightarrow> Hang)"

section \<open>Byte slices and byte views (byteview.go)\<close>

text \<open>
  A \<^verbatim>\<open>[]byte\<close> is a slice header: the address of its backing array and its length.
  The memory is the list of the arrays allocated so far, an address being an index into it;
  \<^verbatim>\<open>make\<close> appends a new array. Two slices with the same address share their bytes.
  A nil slice has length 0, and nothing is read or written through it.
  The process-wide log (\<^verbatim>\<open>log.Println\<close>) is the second component of the world.
\<close>

type_synonym byte = "8 word"

record slice =
  s_ptr :: nat
  s_len :: nat

record world =
  mem :: "byte list list"
  logs :: "string list"

definition nil_slice :: slice where
  "nil_slice = \<lparr>s_ptr = 0, s_len = 0\<rparr>"

definition bytes_of :: "world \<Rightarrow> slice \<Rightarrow> byte list" where
  "bytes_of w s = (if s_ptr s < length (mem w) then take (s_len s) (mem w ! s_ptr s) else [])"

text \<open>The assignment \<^verbatim>\<open>s[i] = v\<close>.\<close>

definition slice_set :: "world \<Rightarrow> slice \<Rightarrow> nat \<Rightarrow> byte \<Rightarrow> world outcome" where
  "slice_set w s i v =
     (if i < s_len s \<and> s_ptr s < length (mem w)
      then Return (w\<lparr>mem := (mem w)[s_ptr s := (mem w ! s_ptr s)[i := v]]\<rparr>)
      else Panic ''index out of range'')"

definition make_bytes :: "nat \<Rightarrow> byte list" where
  "make_bytes n = replicate n 0"

definition copy_bytes :: "byte list \<Rightarrow> byte list \<Rightarrow> byte list" where
  "copy_bytes dst src = (let n = min (length dst) (length src) in take n src @ drop n dst)"

definition cloneBytes :: "world \<Rightarrow> slice \<Rightarrow> world \<times> slice" where
  "cloneBytes w b =
     (let c = copy_bytes (make_bytes (s_len b)) (bytes_of w b)
      in (w\<lparr>mem := mem w @ [c]\<rparr>, \<lparr>s_ptr = length (mem w), s_len = s_len b\<rparr>))"

text \<open>The fields \<^verbatim>\<open>b\<close> and \<^verbatim>\<open>e\<close> of \<^verbatim>\<open>ByteView\<close> are \<open>bv_b\<close> and \<open>bv_e\<close>.\<close>

record ByteView =
  bv_b :: slice
  bv_e :: time

definition Len :: "ByteView \<Rightarrow> int" where
  "Len v = int (s_len (bv_b v))"

definition Expire :: "ByteView \<Rightarrow> time" where
  "Expire v = bv_e v"

definition ByteSlice :: "world \<Rightarrow> ByteView \<Rightarrow> world \<times> slice" where
  "ByteSlice w v = cloneBytes w (bv_b v)"

definition String :: "world \<Rightarrow> ByteView \<Rightarrow> byte list" where
  "String w v = bytes_of w (bv_b v)"

section \<open>The cache shell (cache.go)\<close>

text \<open>
  \<^verbatim>\<open>LRUcache\<close> wraps the engine, built on the first \<^verbatim>\<open>add\<close>. The locks are left out:
  the calls of one caller run in sequence. The source of package lfu is not in the
  repository's files, so the groups modelled here are those built with the cache type
  \<^verbatim>\<open>"lru"\<close>.
\<close>

record LRUcache =
  lru :: "ByteView LRUCache option"
  cacheBytes :: int

definition LRUcache_add :: "LRUcache \<Rightarrow> string \<Rightarrow> ByteView \<Rightarrow> LRUcache outcome" where
  "LRUcache_add c k v =
     (let engine = (case lru c of None \<Rightarrow> New (cacheBytes c) | Some e \<Rightarrow> e)
      in case Add Len engine k v (Expire v) of
           None \<Rightarrow> Hang
         | Some e' \<Rightarrow> Return (c\<lparr>lru := Some e'\<rparr>))"

definition LRUcache_get :: "LRUcache \<Rightarrow> string \<Rightarrow> time \<Rightarrow> LRUcache \<times> ByteView option" where
  "LRUcache_get c k now =
     (case lru c of
        None \<Rightarrow> (c, None)
      | Some e \<Rightarrow> (c\<lparr>lru := Some (fst (Get Len e k now))\<rparr>, snd (Get Len e k now)))"

section \<open>Peers: client and server (client.go, grpc.go)\<close>

record Client =
  baseURL :: string

definition NewClient :: "string \<Rightarrow> Client" where
  "NewClient service = \<lparr>baseURL = service\<rparr>"

text \<open>
  The interfaces of peers.go are functions. A \<^verbatim>\<open>PeerGetter\<close> takes the world, the group
  name and the key of the request, and answers with an error message or with the slice it
  has put in \<^verbatim>\<open>out.Value\<close>. A \<^verbatim>\<open>PeerPicker\<close> answers a key with a peer (\<open>None\<close> for a
  nil interface) and the flag \<^verbatim>\<open>ok\<close>.
\<close>

type_synonym PeerGetter = "world \<Rightarrow> string \<Rightarrow> string \<Rightarrow> (world \<times> (string + slice)) outcome"

type_synonym PeerPicker = "string \<Rightarrow> (PeerGetter option \<times> bool) outcome"

text \<open>
  What \<^verbatim>\<open>Client.Get\<close> needs from outside the repository: \<open>etcd_new\<close> is the error of
  \<^verbatim>\<open>clientv3.New\<close>, if any; \<open>remote\<close> is the result of dialling the service, calling
  the peer and decoding its answer, an error message or the payload. Decoding allocates the
  array of \<^verbatim>\<open>out.Value\<close>. The receiver is a pointer, \<open>None\<close> when nil: it is first
  dereferenced, for \<^verbatim>\<open>c.baseURL\<close>, after the etcd client has been created.
\<close>

record net_env =
  etcd_new :: "string option"
  remote :: "string \<Rightarrow> string \<Rightarrow> string \<Rightarrow> string + byte list"

definition Client_Get :: "net_env \<Rightarrow> Client option \<Rightarrow> PeerGetter" where
  "Client_Get env c w grp k =
     (case etcd_new env of
        Some err \<Rightarrow> Return (w, Inl err)
      | None \<Rightarrow>
          (case c of
             None \<Rightarrow> Panic ''nil pointer dereference''
           | Some cl \<Rightarrow>
               (case remote env (baseURL cl) grp k of
                  Inl err \<Rightarrow> Return (w, Inl err)
                | Inr payload \<Rightarrow>
                    Return (w\<lparr>mem := mem w @ [payload]\<rparr>,
                            Inr \<lparr>s_ptr = length (mem w), s_len = length payload\<rparr>))))"

text \<open>
  The server. \<open>srv_peers\<close> is the field \<^verbatim>\<open>peers\<close>, a pointer that \<^verbatim>\<open>Stop\<close> sets to
  nil; reading the nil map \<^verbatim>\<open>clients\<close> yields nil, as reading an empty one does. The
  default hash \<^verbatim>\<open>crc32.ChecksumIEEE\<close> of the Go library is the argument \<open>crc\<close>.
\<close>

record Server =
  self :: string
  status :: bool
  mu :: bool
  srv_peers :: "CMap option"
  clients :: "string \<rightharpoonup> Client"

definition defaultReplicas :: int where
  "defaultReplicas = 50"

text \<open>
  The field \<open>mu\<close> tells whether the mutex \<^verbatim>\<open>s.mu\<close> is held. The methods are called
  one at a time here, so a mutex that is held when a method reaches \<^verbatim>\<open>s.mu.Lock()\<close>
  is held by a call that has ended and will never release it: the method blocks for ever.
\<close>

definition Lock :: "Server \<Rightarrow> (Server \<Rightarrow> 'a outcome) \<Rightarrow> 'a outcome" where
  "Lock s body = (if mu s then Hang else body (s\<lparr>mu := True\<rparr>))"

definition Unlock :: "Server \<Rightarrow> Server" where
  "Unlock s = s\<lparr>mu := False\<rparr>"

definition NewServer :: "(string \<Rightarrow> 32 word) \<Rightarrow> string \<Rightarrow> Server" where
  "NewServer crc addr =
     \<lparr>self = addr, status = False, mu = False, srv_peers = Some (ch_New defaultReplicas crc),
      clients = Map.empty\<rparr>"

text \<open>\<^verbatim>\<open>Set\<close> and \<^verbatim>\<open>PickPeer\<close> lock on entry and unlock by \<^verbatim>\<open>defer\<close>;
  \<^verbatim>\<open>PickPeer\<close> changes nothing else, so it leaves the server as it found it.\<close>

definition Set :: "Server \<Rightarrow> string list \<Rightarrow> Server outcome" where
  "Set s peersAddr =
     Lock s (\<lambda>s1.
       case srv_peers s1 of
         None \<Rightarrow> Panic ''nil pointer dereference''
       | Some m \<Rightarrow>
           Return (Unlock (s1\<lparr>srv_peers := Some (ch_Add m peersAddr),
                     clients := fold (\<lambda>a cl. cl(a \<mapsto> NewClient (''gocache/'' @ a))) peersAddr (clients s1)\<rparr>)))"

definition PickPeer :: "Server \<Rightarrow> string \<Rightarrow> (Client option \<times> bool) outcome" where
  "PickPeer s k =
     Lock s (\<lambda>s1.
       case srv_peers s1 of
         None \<Rightarrow> Panic ''nil pointer dereference''
       | Some m \<Rightarrow>
           (let peerAddr = ch_Get m k
            in if peerAddr = self s1 then Return (None, False)
               else Return (clients s1 peerAddr, True)))"

text \<open>
  \<^verbatim>\<open>strings.Split(s, sep)\<close> for a one-character separator, and \<^verbatim>\<open>Start\<close>. Listening
  and serving are outside the repository: \<open>listen\<close> gives the error of \<^verbatim>\<open>net.Listen\<close> on
  a port, if any, and \<open>serve\<close> gives the server as concurrent calls have left it when
  \<^verbatim>\<open>Serve\<close> returns, with the error of \<^verbatim>\<open>Serve\<close>. \<^verbatim>\<open>Start\<close> returns the server and
  its \<^verbatim>\<open>error\<close> result (\<open>None\<close> for nil). It unlocks the mutex before it returns
  "server already started" and before it serves; the return on a listen error has no
  \<^verbatim>\<open>Unlock\<close>.
\<close>

primrec Split :: "string \<Rightarrow> char \<Rightarrow> string list" where
  "Split [] sep = [[]]"
| "Split (c # cs) sep =
     (if c = sep then [] # Split cs sep
      else (case Split cs sep of [] \<Rightarrow> [[c]] | w # ws \<Rightarrow> (c # w) # ws))"

record start_env =
  listen :: "string \<Rightarrow> string option"
  serve :: "Server \<Rightarrow> Server \<times> string option"

definition Start :: "start_env \<Rightarrow> Server \<Rightarrow> (Server \<times> string option) outcome" where
  "Start env s =
     Lock s (\<lambda>s0.
       if status s0 then Return (Unlock s0, Some ''server already started'')
       else (let s1 = s0\<lparr>status := True\<rparr>
             in case Split (self s1) CHR '':'' of
                  _ # port # _ \<Rightarrow>
                    (case listen env port of
                       Some err \<Rightarrow> Return (s1, Some (''failed to listen: '' @ err))
                     | None \<Rightarrow>
                         (case serve env (Unlock s1) of
                            (s2, Some err) \<Rightarrow>
                              if status s2 then Return (s2, Some (''failed to serve: '' @ err))
                              else Return (s2, None)
                          | (s2, None) \<Rightarrow> Return (s2, None)))
                | _ \<Rightarrow> Panic ''index out of range''))"

text \<open>The server as a \<^verbatim>\<open>PeerPicker\<close>: the client it returns is wrapped in the interface.\<close>

definition Server_PickPeer :: "net_env \<Rightarrow> Server \<Rightarrow> PeerPicker" where
  "Server_PickPeer env s k =
     obind (PickPeer s k)
       (\<lambda>(c, ok). Return (if ok then Some (Client_Get env c) else None, ok))"

text \<open>A server as the code builds it: \<^verbatim>\<open>NewServer\<close>, then calls of \<^verbatim>\<open>Set\<close>.\<close>

fun srv_build :: "Server \<Rightarrow> string list list \<Rightarrow> Server outcome" where
  "srv_build s [] = Return s"
| "srv_build s (addrs # rest) = obind (Set s addrs) (\<lambda>s'. srv_build s' rest)"

text \<open>What \<^verbatim>\<open>NewServer\<close> and \<^verbatim>\<open>Set\<close> maintain: the mutex is free, the ring exists
  with the default number of replicas, and while it is empty no client has been created.\<close>

definition srv_ok :: "Server \<Rightarrow> bool" where
  "srv_ok s = (\<not> mu s \<and>
               (case srv_peers s of
                  None \<Rightarrow> False
                | Some m \<Rightarrow> replicas m = defaultReplicas \<and> (ring m = [] \<longrightarrow> clients s = Map.empty)))"

section \<open>The group (the orchestrator: NewGroup, GetCacheData, load)\<close>

text \<open>
  The user's loader (\<^verbatim>\<open>Getter\<close>) takes the world and the key and answers with an error
  message or with a slice, which it may go on holding.
\<close>

type_synonym Getter = "world \<Rightarrow> string \<Rightarrow> world \<times> (string + slice)"

record KeyStats =
  firstGetTime :: time
  remoteCnt :: int

text \<open>
  \<open>loader\<close> is the set of keys that have a record in the map of the single-flight group;
  the interleavings of concurrent callers are the subject of the next section.
\<close>

record Group =
  name :: string
  getter :: Getter
  mainCache :: LRUcache
  hotCache :: LRUcache
  peers :: "PeerPicker option"
  loader :: "string set"
  keys :: "string \<rightharpoonup> KeyStats"

definition maxMinuteRemoteQPS :: int where
  "maxMinuteRemoteQPS = 10"

text \<open>
  \<^verbatim>\<open>NewGroup\<close> with the cache type \<^verbatim>\<open>"lru"\<close>. The process-wide registry
  \<^verbatim>\<open>groups\<close> is an argument and a result.
\<close>

definition NewGroup ::
  "(string \<rightharpoonup> Group) \<Rightarrow> string \<Rightarrow> int \<Rightarrow> Getter option \<Rightarrow> (Group \<times> (string \<rightharpoonup> Group)) outcome" where
  "NewGroup groups nm cb gt =
     (case gt of
        None \<Rightarrow> Panic ''nil Getter''
      | Some f \<Rightarrow>
          (let g = \<lparr>name = nm, getter = f,
                    mainCache = \<lparr>lru = None, cacheBytes = cb\<rparr>,
                    hotCache = \<lparr>lru = None, cacheBytes = cb\<rparr>,
                    peers = None, loader = {}, keys = Map.empty\<rparr>
           in Return (g, groups(nm \<mapsto> g))))"

definition RegisterPeers :: "Group \<Rightarrow> PeerPicker option \<Rightarrow> Group outcome" where
  "RegisterPeers g p =
     (if peers g \<noteq> None then Panic ''RegisterPeerPicker called more than once''
      else Return (g\<lparr>peers := p\<rparr>))"

definition populateCache :: "Group \<Rightarrow> string \<Rightarrow> ByteView \<Rightarrow> Group outcome" where
  "populateCache g k v = obind (LRUcache_add (mainCache g) k v) (\<lambda>c. Return (g\<lparr>mainCache := c\<rparr>))"

definition populateHotCache :: "Group \<Rightarrow> string \<Rightarrow> ByteView \<Rightarrow> Group outcome" where
  "populateHotCache g k v = obind (LRUcache_add (hotCache g) k v) (\<lambda>c. Return (g\<lparr>hotCache := c\<rparr>))"

definition getLocally :: "Group \<Rightarrow> world \<Rightarrow> string \<Rightarrow> (Group \<times> world \<times> (string + ByteView)) outcome" where
  "getLocally g w k =
     (case getter g w k of
        (w1, Inl err) \<Rightarrow> Return (g, w1, Inl err)
      | (w1, Inr bytes) \<Rightarrow>
          (let (w2, c) = cloneBytes w1 bytes;
               v = \<lparr>bv_b = c, bv_e = 0\<rparr>
           in obind (populateCache g k v) (\<lambda>g1.
              obind (populateHotCache g1 k v) (\<lambda>g2.
              Return (g2, w2, Inr v)))))"

text \<open>
  \<^verbatim>\<open>math.Round(float64(d) / 60)\<close> for a difference \<open>d\<close> of Unix seconds, rounding
  halves away from zero. The quotient is exact in floating point at every multiple of 30,
  and the rounding error elsewhere is far below the distance to the next half for any
  \<open>d\<close> a clock can produce, so the integer formula is the value the source computes.
  The division of the counter by the interval is Go's \<^verbatim>\<open>/\<close> on \<^verbatim>\<open>int64\<close>, which
  truncates.
\<close>

definition round_minutes :: "int \<Rightarrow> int" where
  "round_minutes d = (if 0 \<le> d then (d + 30) div 60 else - ((30 - d) div 60))"

definition getFromPeer ::
  "Group \<Rightarrow> world \<Rightarrow> PeerGetter \<Rightarrow> string \<Rightarrow> time \<Rightarrow> (Group \<times> world \<times> (string + ByteView)) outcome" where
  "getFromPeer g w peer k now =
     obind (peer w (name g) k) (\<lambda>(w1, res).
       case res of
         Inl err \<Rightarrow> Return (g, w1, Inl err)
       | Inr resValue \<Rightarrow>
           (case keys g k of
              Some stat \<Rightarrow>
                (let stat1 = stat\<lparr>remoteCnt := remoteCnt stat + 1\<rparr>;
                     g1 = g\<lparr>keys := (keys g)(k \<mapsto> stat1)\<rparr>;
                     interval = round_minutes (Unix now - Unix (firstGetTime stat1));
                     qps = remoteCnt stat1 sdiv (max 1 interval)
                 in if qps \<ge> maxMinuteRemoteQPS
                    then obind (populateHotCache g1 k \<lparr>bv_b = resValue, bv_e = 0\<rparr>) (\<lambda>g2.
                         Return (g2\<lparr>keys := (keys g2)(k := None)\<rparr>, w1,
                                 Inr \<lparr>bv_b = resValue, bv_e = 0\<rparr>))
                    else Return (g1, w1, Inr \<lparr>bv_b = resValue, bv_e = 0\<rparr>))
            | None \<Rightarrow>
                Return (g\<lparr>keys := (keys g)(k \<mapsto> \<lparr>firstGetTime = now, remoteCnt = 1\<rparr>)\<rparr>, w1,
                        Inr \<lparr>bv_b = resValue, bv_e = 0\<rparr>)))"

text \<open>
  The function \<^verbatim>\<open>load\<close> hands to \<^verbatim>\<open>Do\<close>, and \<^verbatim>\<open>load\<close> itself as run by a caller
  with no concurrent caller on the key: it finds no record, installs one, runs the function
  and removes the record. Were a record present, it would wait for a call that nobody is
  running.
\<close>

definition load_fn :: "Group \<Rightarrow> world \<Rightarrow> string \<Rightarrow> time \<Rightarrow> (Group \<times> world \<times> (string + ByteView)) outcome" where
  "load_fn g w k now =
     (case peers g of
        None \<Rightarrow> getLocally g w k
      | Some pick \<Rightarrow>
          obind (pick k) (\<lambda>(peer, ok).
            if ok then
              (case peer of
                 None \<Rightarrow> Panic ''nil pointer dereference''
               | Some p \<Rightarrow>
                   obind (getFromPeer g w p k now) (\<lambda>(g1, w1, res).
                     case res of
                       Inr v \<Rightarrow> Return (g1, w1, Inr v)
                     | Inl err \<Rightarrow>
                         getLocally g1 (w1\<lparr>logs := logs w1 @ [''[GoCache] Failed to get from peer '' @ err]\<rparr>) k))
            else getLocally g w k))"

definition load :: "Group \<Rightarrow> world \<Rightarrow> string \<Rightarrow> time \<Rightarrow> (Group \<times> world \<times> (string + ByteView)) outcome" where
  "load g w k now =
     (if k \<in> loader g then Hang
      else obind (load_fn (g\<lparr>loader := insert k (loader g)\<rparr>) w k now) (\<lambda>(g1, w1, res).
             Return (g1\<lparr>loader := loader g1 - {k}\<rparr>, w1, res)))"

definition GetCacheData :: "Group \<Rightarrow> world \<Rightarrow> string \<Rightarrow> time \<Rightarrow> (Group \<times> world \<times> (string + ByteView)) outcome" where
  "GetCacheData g w k now =
     (if k = [] then Return (g, w, Inl ''key is required'')
      else (case LRUcache_get (hotCache g) k now of
              (hc, Some v) \<Rightarrow>
                Return (g\<lparr>hotCache := hc\<rparr>, w\<lparr>logs := logs w @ [''[GeeCache] hit hotCache'']\<rparr>, Inr v)
            | (hc, None) \<Rightarrow>
                (case LRUcache_get (mainCache g) k now of
                   (mc, Some v) \<Rightarrow>
                     Return (g\<lparr>hotCache := hc, mainCache := mc\<rparr>,
                             w\<lparr>logs := logs w @ [''[GeeCache] hit'']\<rparr>, Inr v)
                 | (mc, None) \<Rightarrow> load (g\<lparr>hotCache := hc, mainCache := mc\<rparr>) w k now)))"

text \<open>
  A peer whose call succeeds with the slice \<open>v\<close> in \<^verbatim>\<open>out.Value\<close>, and a run of
  successful remote fetches of one key: each element is the slice answered and the instant
  of the fetch.
\<close>

definition peer_ok :: "slice \<Rightarrow> PeerGetter" where
  "peer_ok v w grp k = Return (w, Inr v)"

fun remote_fetches :: "Group \<Rightarrow> world \<Rightarrow> string \<Rightarrow> (slice \<times> time) list \<Rightarrow> (Group \<times> world) outcome" where
  "remote_fetches g w k [] = Return (g, w)"
| "remote_fetches g w k ((v, now) # rest) =
     obind (getFromPeer g w (peer_ok v) k now) (\<lambda>(g1, w1, res). remote_fetches g1 w1 k rest)"

text \<open>Every fetch of the run happens within one minute (in nanoseconds) after the instant \<open>t1\<close>.\<close>

definition in_window :: "time \<Rightarrow> (slice \<times> time) list \<Rightarrow> bool" where
  "in_window t1 fs = list_all (\<lambda>(v, t). t1 \<le> t \<and> t \<le> t1 + 60000000000) fs"

text \<open>
  Scenario S6 of the specification, made concrete: a group of 2048 bytes whose loader knows
  no key, a world holding the one-byte array of the answer \<open>"v"\<close>, and \<open>n\<close> remote
  fetches of the key \<open>"k"\<close>, all at the same instant, each answered with that array.
\<close>

definition S6_getter :: Getter where
  "S6_getter w k = (w, Inl ''not exist'')"

definition S6_world :: world where
  "S6_world = \<lparr>mem = [[118]], logs = []\<rparr>"

definition S6_group :: Group where
  "S6_group = \<lparr>name = ''scores'', getter = S6_getter,
                mainCache = \<lparr>lru = None, cacheBytes = 2048\<rparr>,
                hotCache = \<lparr>lru = None, cacheBytes = 2048\<rparr>,
                peers = None, loader = {}, keys = Map.empty\<rparr>"

definition S6_fetches :: "nat \<Rightarrow> (slice \<times> time) list" where
  "S6_fetches n = replicate n (\<lparr>s_ptr = 0, s_len = 1\<rparr>, 1000000000)"

definition S6_run :: "nat \<Rightarrow> (Group \<times> world) outcome" where
  "S6_run n =
     obind (NewGroup Map.empty ''scores'' 2048 (Some S6_getter))
       (\<lambda>(g, groups). remote_fetches g S6_world ''k'' (S6_fetches n))"

text \<open>A loader that answers every key with the one-byte array at address 0, which it keeps.\<close>

definition shared_getter :: Getter where
  "shared_getter w k = (w, Inr \<lparr>s_ptr = 0, s_len = 1\<rparr>)"

text \<open>A server on which \<^verbatim>\<open>Start\<close> is serving (the mutex is free again), and an
  environment in which nothing fails.\<close>

definition running_server :: Server where
  "running_server = (NewServer identity_hash ''localhost:9999'')\<lparr>status := True\<rparr>"

definition calm_env :: start_env where
  "calm_env = \<lparr>listen = (\<lambda>port. None), serve = (\<lambda>s. (s, None))\<rparr>"

text \<open>An environment in which the port is taken, and the server that a \<^verbatim>\<open>Start\<close> which
  failed to listen leaves: marked as running, the mutex held.\<close>

definition busy_env :: start_env where
  "busy_env = \<lparr>listen = (\<lambda>port. Some ''address already in use''), serve = (\<lambda>s. (s, None))\<rparr>"

definition stuck_server :: Server where
  "stuck_server = (NewServer identity_hash ''localhost:9999'')\<lparr>status := True, mu := True\<rparr>"

text \<open>The two panics of configuration.\<close>

definition config_panic :: "'a outcome \<Rightarrow> bool" where
  "config_panic x =
     (x = Panic ''nil Getter'' \<or> x = Panic ''RegisterPeerPicker called more than once'')"

text \<open>
  The group of scenario S6 with the loader \<open>shared_getter\<close>, and the state in which a
  local load of \<open>"k"\<close> leaves it: both caches hold a view of the array allocated at
  address 1.
\<close>

definition shared_group :: Group where
  "shared_group = S6_group\<lparr>getter := shared_getter\<rparr>"

definition cloned_view :: ByteView where
  "cloned_view = \<lparr>bv_b = \<lparr>s_ptr = 1, s_len = 1\<rparr>, bv_e = 0\<rparr>"

definition shared_group_loaded :: Group where
  "shared_group_loaded =
     shared_group
       \<lparr>mainCache := \<lparr>lru = Some (Add_store Len (New 2048) ''k'' cloned_view 0), cacheBytes = 2048\<rparr>,
        hotCache := \<lparr>lru = Some (Add_store Len (New 2048) ''k'' cloned_view 0), cacheBytes = 2048\<rparr>\<rparr>"

text \<open>A network in which etcd is up and every peer answers \<open>"v"\<close>.\<close>

definition calm_net :: net_env where
  "calm_net = \<lparr>etcd_new = None, remote = (\<lambda>service grp k. Inr [118])\<rparr>"

section \<open>Single flight under concurrent callers (singleflight.go)\<close>

text \<open>
  \<^verbatim>\<open>Do\<close> is run by any number of goroutines at once, so it is modelled by the steps one
  caller takes, interleaved by a scheduler. Callers are numbered; caller \<open>t\<close> calls
  \<^verbatim>\<open>Do(kf t, fn t)\<close> once. The map \<^verbatim>\<open>g.m\<close> sends a key to a pointer to a
  \<^verbatim>\<open>call\<close>; the pointer is an index into the list of the calls allocated so far.
  In a call, \<open>finished\<close> says that the wait group has been released (\<^verbatim>\<open>wg.Done\<close>), and
  \<open>res\<close> is the pair \<^verbatim>\<open>(val, err)\<close>, \<open>None\<close> until it is assigned.

  The statements that the source runs while holding \<^verbatim>\<open>g.mu\<close> form one step, since no
  other access to the map can come between them. The positions of a caller:
  \<^item> \<open>Calling\<close>: \<^verbatim>\<open>Do\<close> not yet entered;
  \<^item> \<open>Waiting c\<close>: found the call \<open>c\<close> in the map, blocked in \<^verbatim>\<open>c.wg.Wait()\<close>;
  \<^item> \<open>Installed c\<close>: put the new call \<open>c\<close> in the map, \<open>fn\<close> not called yet;
  \<^item> \<open>InFn c n\<close>: inside \<open>fn\<close>;
  \<^item> \<open>Stored c n\<close>: \<open>fn\<close> has returned and \<^verbatim>\<open>c.val, c.err\<close> are assigned;
  \<^item> \<open>Released c n\<close>: \<^verbatim>\<open>c.wg.Done()\<close> called;
  \<^item> \<open>Deleted c n\<close>: \<^verbatim>\<open>delete(g.m, key)\<close> done;
  \<^item> \<open>Returned role c r\<close>: \<^verbatim>\<open>Do\<close> has returned \<open>r\<close>, read from the call \<open>c\<close>.
  The function \<open>fn\<close> may count its executions and answer differently each time: \<open>n\<close>
  is the number of executions of any \<open>fn\<close> that began before this one (the field
  \<open>runs\<close> counts them), and \<open>fn t n\<close> is the pair this execution returns: every
  execution of \<open>fn\<close> is taken to return (one that panics or never ends leaves the waiters
  of its record blocked). The role is \<open>Some n\<close> for a caller that ran the execution
  \<open>n\<close> itself and \<open>None\<close> for one that waited.
\<close>

record 'r call =
  finished :: bool
  res :: "'r option"

datatype 'r pc =
    Calling
  | Waiting nat
  | Installed nat
  | InFn nat nat
  | Stored nat nat
  | Released nat nat
  | Deleted nat nat
  | Returned "nat option" nat "'r option"

record 'r flight =
  sf_m :: "string \<rightharpoonup> nat"
  calls :: "'r call list"
  pcs :: "nat \<Rightarrow> 'r pc"
  runs :: nat

definition sf_init :: "'r flight" where
  "sf_init = \<lparr>sf_m = Map.empty, calls = [], pcs = (\<lambda>t. Calling), runs = 0\<rparr>"

text \<open>One step of caller \<open>t\<close>; \<open>None\<close> when it cannot move (blocked, or returned).\<close>

definition sf_step :: "(nat \<Rightarrow> string) \<Rightarrow> (nat \<Rightarrow> nat \<Rightarrow> 'r) \<Rightarrow> 'r flight \<Rightarrow> nat \<Rightarrow> 'r flight option" where
  "sf_step kf fn s t =
     (case pcs s t of
        Calling \<Rightarrow>
          (case sf_m s (kf t) of
             Some c \<Rightarrow> Some (s\<lparr>pcs := (pcs s)(t := Waiting c)\<rparr>)
           | None \<Rightarrow>
               Some (s\<lparr>calls := calls s @ [\<lparr>finished = False, res = None\<rparr>],
                       sf_m := (sf_m s)(kf t \<mapsto> length (calls s)),
                       pcs := (pcs s)(t := Installed (length (calls s)))\<rparr>))
      | Waiting c \<Rightarrow>
          if finished (calls s ! c)
          then Some (s\<lparr>pcs := (pcs s)(t := Returned None c (res (calls s ! c)))\<rparr>)
          else None
      | Installed c \<Rightarrow>
          Some (s\<lparr>pcs := (pcs s)(t := InFn c (runs s)), runs := runs s + 1\<rparr>)
      | InFn c n \<Rightarrow>
          Some (s\<lparr>calls := (calls s)[c := (calls s ! c)\<lparr>res := Some (fn t n)\<rparr>],
                  pcs := (pcs s)(t := Stored c n)\<rparr>)
      | Stored c n \<Rightarrow>
          Some (s\<lparr>calls := (calls s)[c := (calls s ! c)\<lparr>finished := True\<rparr>],
                  pcs := (pcs s)(t := Released c n)\<rparr>)
      | Released c n \<Rightarrow>
          Some (s\<lparr>sf_m := (sf_m s)(kf t := None), pcs := (pcs s)(t := Deleted c n)\<rparr>)
      | Deleted c n \<Rightarrow>
          Some (s\<lparr>pcs := (pcs s)(t := Returned (Some n) c (res (calls s ! c)))\<rparr>)
      | Returned role c r \<Rightarrow> None)"

text \<open>A schedule is the list of the callers chosen; choosing a caller that cannot move
  changes nothing. Every state the group can be in is the end of some schedule.\<close>

fun sf_run :: "(nat \<Rightarrow> string) \<Rightarrow> (nat \<Rightarrow> nat \<Rightarrow> 'r) \<Rightarrow> 'r flight \<Rightarrow> nat list \<Rightarrow> 'r flight" where
  "sf_run kf fn s [] = s"
| "sf_run kf fn s (t # ts) =
     sf_run kf fn (case sf_step kf fn s t of None \<Rightarrow> s | Some s' \<Rightarrow> s') ts"

text \<open>The call a caller leads, and whether its load is in flight (record installed, not
  yet deleted).\<close>

fun led :: "'r pc \<Rightarrow> nat option" where
  "led (Installed c) = Some c"
| "led (InFn c n) = Some c"
| "led (Stored c n) = Some c"
| "led (Released c n) = Some c"
| "led (Deleted c n) = Some c"
| "led (Returned (Some n) c r) = Some c"
| "led _ = None"

fun in_flight :: "'r pc \<Rightarrow> bool" where
  "in_flight (Installed c) = True"
| "in_flight (InFn c n) = True"
| "in_flight (Stored c n) = True"
| "in_flight (Released c n) = True"
| "in_flight _ = False"

fun is_Returned :: "'r pc \<Rightarrow> bool" where
  "is_Returned (Returned role c r) = True"
| "is_Returned _ = False"

text \<open>The number of the execution of \<open>fn\<close> a caller has begun.\<close>

fun exec_no :: "'r pc \<Rightarrow> nat option" where
  "exec_no (InFn c n) = Some n"
| "exec_no (Stored c n) = Some n"
| "exec_no (Released c n) = Some n"
| "exec_no (Deleted c n) = Some n"
| "exec_no (Returned role c r) = role"
| "exec_no _ = None"

text \<open>The state of a call, as the position of its leader determines it.\<close>

fun call_as :: "(nat \<Rightarrow> 'r) \<Rightarrow> 'r pc \<Rightarrow> 'r call" where
  "call_as f (Stored c n) = \<lparr>finished = False, res = Some (f n)\<rparr>"
| "call_as f (Released c n) = \<lparr>finished = True, res = Some (f n)\<rparr>"
| "call_as f (Deleted c n) = \<lparr>finished = True, res = Some (f n)\<rparr>"
| "call_as f (Returned (Some n) c r) = \<lparr>finished = True, res = Some (f n)\<rparr>"
| "call_as f _ = \<lparr>finished = False, res = None\<rparr>"

text \<open>The invariant of the interleaved runs.\<close>

definition sf_inv :: "(nat \<Rightarrow> string) \<Rightarrow> (nat \<Rightarrow> nat \<Rightarrow> 'r) \<Rightarrow> 'r flight \<Rightarrow> bool" where
  "sf_inv kf fn s =
     ((\<forall>t c. led (pcs s t) = Some c \<longrightarrow> c < length (calls s) \<and> calls s ! c = call_as (fn t) (pcs s t)) \<and>
      (\<forall>t t' c. led (pcs s t) = Some c \<and> led (pcs s t') = Some c \<longrightarrow> t = t') \<and>
      (\<forall>t c. in_flight (pcs s t) \<and> led (pcs s t) = Some c \<longrightarrow> sf_m s (kf t) = Some c) \<and>
      (\<forall>k c. sf_m s k = Some c \<longrightarrow> (\<exists>t. kf t = k \<and> in_flight (pcs s t) \<and> led (pcs s t) = Some c)) \<and>
      (\<forall>t c. pcs s t = Waiting c \<longrightarrow> (\<exists>tl. led (pcs s tl) = Some c \<and> kf tl = kf t)) \<and>
      (\<forall>t c r. pcs s t = Returned None c r \<longrightarrow>
         (\<exists>tl. led (pcs s tl) = Some c \<and> kf tl = kf t) \<and>
         finished (calls s ! c) \<and> r = res (calls s ! c)) \<and>
      (\<forall>t n c r. pcs s t = Returned (Some n) c r \<longrightarrow> r = Some (fn t n)))"

text \<open>
  The steps a caller has still to take, at most, and a scheduler that runs the callers
  \<open>0, \<dots>, N - 1\<close> to the end: it picks the first caller that can move, until none can or
  the fuel is spent.
\<close>

fun remaining :: "'r pc \<Rightarrow> nat" where
  "remaining Calling = 6"
| "remaining (Waiting c) = 1"
| "remaining (Installed c) = 5"
| "remaining (InFn c n) = 4"
| "remaining (Stored c n) = 3"
| "remaining (Released c n) = 2"
| "remaining (Deleted c n) = 1"
| "remaining (Returned role c r) = 0"

fun sf_drain :: "(nat \<Rightarrow> string) \<Rightarrow> (nat \<Rightarrow> nat \<Rightarrow> 'r) \<Rightarrow> nat \<Rightarrow> nat \<Rightarrow> 'r flight \<Rightarrow> 'r flight" where
  "sf_drain kf fn N 0 s = s"
| "sf_drain kf fn N (Suc fuel) s =
     (case find (\<lambda>t. sf_step kf fn s t \<noteq> None) [0 ..< N] of
        None \<Rightarrow> s
      | Some t \<Rightarrow> sf_drain kf fn N fuel (case sf_step kf fn s t of None \<Rightarrow> s | Some s' \<Rightarrow> s'))"

text \<open>The work left to the callers below \<open>N\<close>, and the callers from \<open>N\<close> on not having
  entered.\<close>

definition work :: "nat \<Rightarrow> 'r flight \<Rightarrow> nat" where
  "work N s = (\<Sum>t < N. remaining (pcs s t))"

definition idle_beyond :: "nat \<Rightarrow> 'r flight \<Rightarrow> bool" where
  "idle_beyond N s = (\<forall>t. N \<le> t \<longrightarrow> pcs s t = Calling)"

text \<open>
  Records and executions are counted by their owners: every call allocated has a leader, and
  the executions of \<open>fn\<close> begun so far are numbered \<open>0, \<dots>, runs - 1\<close>, each the
  execution of one caller.
\<close>

definition sf_counted :: "'r flight \<Rightarrow> bool" where
  "sf_counted s =
     ((\<forall>c. c < length (calls s) \<longrightarrow> (\<exists>t. led (pcs s t) = Some c)) \<and>
      (\<forall>t n. exec_no (pcs s t) = Some n \<longrightarrow> n < runs s) \<and>
      (\<forall>n. n < runs s \<longrightarrow> (\<exists>t. exec_no (pcs s t) = Some n)) \<and>
      (\<forall>t t' n. exec_no (pcs s t) = Some n \<and> exec_no (pcs s t') = Some n \<longrightarrow> t = t'))"

section \<open>Properties of the LRU engine\<close>

subsection \<open>Arithmetic of the counters\<close>

lemma int64_mod: "int64 x mod 18446744073709551616 = x mod 18446744073709551616"
proof -
  have "int64 x mod 18446744073709551616 =
        ((x + 9223372036854775808) mod 18446744073709551616 - 9223372036854775808)
          mod 18446744073709551616"
    by (simp only: int64_def)
  also have "\<dots> = (x + 9223372036854775808 - 9223372036854775808) mod 18446744073709551616"
    by (rule mod_diff_left_eq)
  finally show ?thesis by simp
qed

lemma int64_cong:
  assumes "a mod 18446744073709551616 = b mod 18446744073709551616"
  shows "int64 a = int64 b"
proof -
  have "(a + 9223372036854775808) mod 18446744073709551616 =
        (a mod 18446744073709551616 + 9223372036854775808) mod 18446744073709551616"
    by (rule mod_add_left_eq [symmetric])
  also have "\<dots> = (b mod 18446744073709551616 + 9223372036854775808) mod 18446744073709551616"
    by (simp only: assms)
  also have "\<dots> = (b + 9223372036854775808) mod 18446744073709551616"
    by (rule mod_add_left_eq)
  finally show ?thesis by (simp only: int64_def)
qed

lemma int64_add_left [simp]: "int64 (int64 a + b) = int64 (a + b)"
proof (rule int64_cong)
  have "(int64 a + b) mod 18446744073709551616 =
        (int64 a mod 18446744073709551616 + b) mod 18446744073709551616"
    by (rule mod_add_left_eq [symmetric])
  also have "\<dots> = (a mod 18446744073709551616 + b) mod 18446744073709551616"
    by (simp only: int64_mod)
  also have "\<dots> = (a + b) mod 18446744073709551616"
    by (rule mod_add_left_eq)
  finally show "(int64 a + b) mod 18446744073709551616 = (a + b) mod 18446744073709551616" .
qed

lemma int64_add_right [simp]: "int64 (a + int64 b) = int64 (a + b)"
  using int64_add_left [of b a] by (simp only: add.commute)

lemma int64_diff_right [simp]: "int64 (a - int64 b) = int64 (a - b)"
proof (rule int64_cong)
  have "(a - int64 b) mod 18446744073709551616 =
        (a - int64 b mod 18446744073709551616) mod 18446744073709551616"
    by (rule mod_diff_right_eq [symmetric])
  also have "\<dots> = (a - b mod 18446744073709551616) mod 18446744073709551616"
    by (simp only: int64_mod)
  also have "\<dots> = (a - b) mod 18446744073709551616"
    by (rule mod_diff_right_eq)
  finally show "(a - int64 b) mod 18446744073709551616 = (a - b) mod 18446744073709551616" .
qed

lemma int64_diff_left [simp]: "int64 (int64 a - b) = int64 (a - b)"
  using int64_add_left [of a "- b"] by simp

lemma int64_int64 [simp]: "int64 (int64 a) = int64 a"
  using int64_add_left [of a 0] by simp

lemma int64_zero [simp]: "int64 0 = 0"
  by (simp add: int64_def)

lemma int64_id: "- 9223372036854775808 \<le> x \<Longrightarrow> x < 9223372036854775808 \<Longrightarrow> int64 x = x"
  by (simp add: int64_def)

lemma int64_range: "- 9223372036854775808 \<le> int64 x \<and> int64 x < 9223372036854775808"
proof -
  have "0 \<le> (x + 9223372036854775808) mod 18446744073709551616"
    "(x + 9223372036854775808) mod 18446744073709551616 < 18446744073709551616"
    by simp_all
  then show ?thesis unfolding int64_def by linarith
qed

lemma int64_le: "- 9223372036854775808 \<le> x \<Longrightarrow> int64 x \<le> x"
proof -
  assume a: "- 9223372036854775808 \<le> x"
  have "(x + 9223372036854775808) mod 18446744073709551616 \<le> x + 9223372036854775808"
    using a by (intro zmod_le_nonneg_dividend) simp
  then show ?thesis by (simp add: int64_def)
qed
subsection \<open>The eviction loop, one iteration at a time\<close>

lemma evictLoop_stop:
  "maxCapacity c = 0 \<or> curCapacity c \<le> maxCapacity c \<Longrightarrow> evictLoop vlen c = Some c"
  by (subst evictLoop.simps) auto

lemma evictLoop_step:
  "maxCapacity c \<noteq> 0 \<Longrightarrow> maxCapacity c < curCapacity c \<Longrightarrow>
   evictLoop vlen c = evictLoop vlen (RemoveOldest vlen c)"
  by (subst evictLoop.simps) auto

lemma index_of_Nil [simp]: "index_of [] = Map.empty"
  by (simp add: index_of_def)

lemma index_of_Cons [simp]: "index_of (x # xs) = (index_of xs)(key x \<mapsto> x)"
  by (simp add: index_of_def)

lemma index_of_None_iff: "index_of xs k = None \<longleftrightarrow> k \<notin> key ` set xs"
  by (induction xs) auto

lemma index_of_SomeD: "index_of xs k = Some e \<Longrightarrow> e \<in> set xs \<and> key e = k"
  by (induction xs) (auto split: if_splits)

lemma index_of_SomeI: "distinct (map key xs) \<Longrightarrow> e \<in> set xs \<Longrightarrow> index_of xs (key e) = Some e"
  by (induction xs) (auto simp: rev_image_eqI)

lemma index_of_remove1:
  "distinct (map key xs) \<Longrightarrow> x \<in> set xs \<Longrightarrow> index_of (remove1 x xs) = (index_of xs)(key x := None)"
proof (induction xs)
  case Nil
  then show ?case by simp
next
  case (Cons a xs)
  show ?case
  proof (cases "x = a")
    case True
    from Cons.prems have "index_of xs (key a) = None" by (simp add: index_of_None_iff)
    with True show ?thesis by (auto simp: fun_eq_iff)
  next
    case False
    with Cons.prems have xin: "x \<in> set xs" by simp
    from Cons.prems have "key a \<notin> key ` set xs" by simp
    with xin have "key x \<noteq> key a" by (metis imageI)
    with xin Cons False show ?thesis by (auto simp: fun_eq_iff)
  qed
qed

lemma distinct_key_remove1:
  assumes "distinct (map key xs)"
  shows "distinct (map key (remove1 x xs))"
proof -
  from assms have "distinct xs" "inj_on key (set xs)" by (simp_all add: distinct_map)
  then show ?thesis by (simp add: distinct_map set_remove1_eq inj_on_diff)
qed

lemma key_notin_remove1:
  assumes "distinct (map key xs)" "x \<in> set xs"
  shows "key x \<notin> key ` set (remove1 x xs)"
proof -
  from assms have d: "distinct xs" and i: "inj_on key (set xs)" by (simp_all add: distinct_map)
  show ?thesis using d i assms(2) by (auto simp: set_remove1_eq dest: inj_onD)
qed

lemma sum_remove1:
  "x \<in> set xs \<Longrightarrow> sum_list (map f (remove1 x xs)) = sum_list (map f xs) - (f x :: int)"
  by (induction xs) auto

lemma lru_inv_New: "lru_inv vlen (New m)"
  by (simp add: lru_inv_def New_def live_bytes_def)

lemma live_bytes_nonneg: "list_all (\<lambda>e. 0 \<le> vlen (val e)) (ll c) \<Longrightarrow> 0 \<le> live_bytes vlen c"
  unfolding live_bytes_def by (rule sum_list_nonneg) (auto simp: entry_bytes_def list_all_iff)

lemma lru_inv_removeElement:
  assumes "lru_inv vlen c" "node \<in> set (ll c)"
  shows "lru_inv vlen (removeElement vlen c node)"
  using assms
  by (simp add: lru_inv_def removeElement_def live_bytes_def distinct_key_remove1
      index_of_remove1 sum_remove1)

lemma live_removeElement:
  "node \<in> set (ll c) \<Longrightarrow>
   live_bytes vlen (removeElement vlen c node) = live_bytes vlen c - entry_bytes vlen node"
  by (simp add: removeElement_def live_bytes_def sum_remove1)

lemma entry_bytes_nonneg: "0 \<le> vlen (val e) \<Longrightarrow> 0 \<le> entry_bytes vlen e"
  by (simp add: entry_bytes_def)

lemma list_all_remove1: "list_all P xs \<Longrightarrow> list_all P (remove1 x xs)"
  by (auto simp: list_all_iff dest: notin_set_remove1)

lemma lru_inv_RemoveOldest: "lru_inv vlen c \<Longrightarrow> lru_inv vlen (RemoveOldest vlen c)"
  by (simp add: RemoveOldest_def lru_inv_removeElement)

lemma lru_inv_Add_store:
  assumes "lru_inv vlen c"
  shows "lru_inv vlen (Add_store vlen c k v ex)"
proof (cases "cache c k")
  case None
  with assms have "k \<notin> key ` set (ll c)" by (simp add: lru_inv_def index_of_None_iff)
  with assms None show ?thesis
    by (simp add: lru_inv_def Add_store_def live_bytes_def entry_bytes_def Let_def)
      (simp add: ac_simps)
next
  case (Some node)
  with assms have n: "node \<in> set (ll c)" "key node = k"
    by (auto simp: lru_inv_def dest: index_of_SomeD)
  from assms have d: "distinct (map key (ll c))" by (simp add: lru_inv_def)
  have kn: "k \<notin> key ` set (remove1 node (ll c))"
    using key_notin_remove1 [OF d n(1)] n(2) by simp
  have "int64 (live_bytes vlen c + (vlen v - vlen (val node))) =
        int64 (int (length k) + vlen v + (live_bytes vlen c - entry_bytes vlen node))"
    using n(2) by (simp add: entry_bytes_def algebra_simps)
  with assms Some n d kn show ?thesis
    by (simp add: lru_inv_def Add_store_def live_bytes_def entry_bytes_def Let_def
        distinct_key_remove1 index_of_remove1 sum_remove1)
qed

lemma live_Add_store_le:
  assumes "lru_inv vlen c" "list_all (\<lambda>e. 0 \<le> vlen (val e)) (ll c)"
  shows "live_bytes vlen (Add_store vlen c k v ex) \<le> live_bytes vlen c + int (length k) + vlen v"
proof (cases "cache c k")
  case None
  then show ?thesis by (simp add: Add_store_def live_bytes_def entry_bytes_def Let_def)
next
  case (Some node)
  with assms(1) have n: "node \<in> set (ll c)" "key node = k"
    by (auto simp: lru_inv_def dest: index_of_SomeD)
  with assms(2) have "0 \<le> vlen (val node)" by (simp add: list_all_iff)
  with Some n show ?thesis
    by (simp add: Add_store_def live_bytes_def entry_bytes_def Let_def sum_remove1)
qed

lemma nonneg_Add_store:
  assumes "list_all (\<lambda>e. 0 \<le> vlen (val e)) (ll c)" "0 \<le> vlen v"
  shows "list_all (\<lambda>e. 0 \<le> vlen (val e)) (ll (Add_store vlen c k v ex))"
  using assms list_all_remove1 [OF assms(1)]
  by (simp add: Add_store_def Let_def split: option.splits)

lemma length_RemoveOldest:
  "ll c \<noteq> [] \<Longrightarrow> length (ll (RemoveOldest vlen c)) < length (ll c)"
  by (simp add: RemoveOldest_def removeElement_def length_remove1)

lemma maxCapacity_RemoveOldest [simp]: "maxCapacity (RemoveOldest vlen c) = maxCapacity c"
  by (simp add: RemoveOldest_def removeElement_def)

lemma evictLoop_total:
  assumes "lru_inv vlen c" "0 \<le> maxCapacity c"
  shows "\<exists>c'. evictLoop vlen c = Some c' \<and> lru_inv vlen c' \<and> maxCapacity c' = maxCapacity c \<and>
           (maxCapacity c = 0 \<or> curCapacity c' \<le> maxCapacity c)"
  using assms
proof (induction "length (ll c)" arbitrary: c rule: less_induct)
  case less
  show ?case
  proof (cases "maxCapacity c \<noteq> 0 \<and> maxCapacity c < curCapacity c")
    case False
    then have "evictLoop vlen c = Some c" by (auto intro: evictLoop_stop)
    with False less.prems show ?thesis by auto
  next
    case True
    have ne: "ll c \<noteq> []"
    proof
      assume "ll c = []"
      with less.prems(1) have "curCapacity c = 0" by (simp add: lru_inv_def live_bytes_def)
      with True less.prems(2) show False by simp
    qed
    have "\<exists>c'. evictLoop vlen (RemoveOldest vlen c) = Some c' \<and> lru_inv vlen c' \<and>
            maxCapacity c' = maxCapacity (RemoveOldest vlen c) \<and>
            (maxCapacity (RemoveOldest vlen c) = 0 \<or> curCapacity c' \<le> maxCapacity (RemoveOldest vlen c))"
      using less.hyps [OF length_RemoveOldest [OF ne]] less.prems
      by (simp add: lru_inv_RemoveOldest)
    then show ?thesis using True by (simp add: evictLoop_step)
  qed
qed

lemma lru_inv_MoveToFront:
  assumes "lru_inv vlen c" "node \<in> set (ll c)"
  shows "lru_inv vlen (c\<lparr>ll := MoveToFront (ll c) node\<rparr>)"
proof -
  from assms have d: "distinct (map key (ll c))" by (simp add: lru_inv_def)
  have "index_of (ll c) (key node) = Some node" using d assms(2) by (rule index_of_SomeI)
  then have "(index_of (ll c))(key node \<mapsto> node) = index_of (ll c)" by (auto simp: fun_eq_iff)
  with assms d key_notin_remove1 [OF d assms(2)] show ?thesis
    by (simp add: lru_inv_def MoveToFront_def live_bytes_def distinct_key_remove1
        index_of_remove1 sum_remove1)
qed

lemma lru_inv_Get: "lru_inv vlen c \<Longrightarrow> lru_inv vlen (fst (Get vlen c k now))"
proof (cases "cache c k")
  case None
  assume "lru_inv vlen c"
  with None show ?thesis by (simp add: Get_def)
next
  case (Some node)
  assume a: "lru_inv vlen c"
  with Some have "node \<in> set (ll c)" by (auto simp: lru_inv_def dest: index_of_SomeD)
  with a Some show ?thesis
    by (simp add: Get_def lru_inv_removeElement lru_inv_MoveToFront)
qed

lemma RemoveOldest_effect:
  assumes "ll c \<noteq> []"
  shows "\<exists>e. evicted (RemoveOldest vlen c) = evicted c @ [e]"
    and "cache (RemoveOldest vlen c) \<subseteq>\<^sub>m cache c"
  using assms by (auto simp: RemoveOldest_def removeElement_def map_le_def)

lemma evictLoop_effect:
  assumes "lru_inv vlen c" "0 \<le> maxCapacity c"
  shows "\<exists>c' es. evictLoop vlen c = Some c' \<and> lru_inv vlen c' \<and> maxCapacity c' = maxCapacity c \<and>
           (maxCapacity c = 0 \<or> curCapacity c' \<le> maxCapacity c) \<and>
           evicted c' = evicted c @ es \<and> (es = [] \<longrightarrow> c' = c) \<and> cache c' \<subseteq>\<^sub>m cache c"
  using assms
proof (induction "length (ll c)" arbitrary: c rule: less_induct)
  case less
  show ?case
  proof (cases "maxCapacity c \<noteq> 0 \<and> maxCapacity c < curCapacity c")
    case False
    then have "evictLoop vlen c = Some c" by (auto intro: evictLoop_stop)
    with False less.prems show ?thesis by auto
  next
    case True
    let ?d = "RemoveOldest vlen c"
    have ne: "ll c \<noteq> []"
    proof
      assume "ll c = []"
      with less.prems(1) have "curCapacity c = 0" by (simp add: lru_inv_def live_bytes_def)
      with True less.prems(2) show False by simp
    qed
    have "\<exists>c' es. evictLoop vlen ?d = Some c' \<and> lru_inv vlen c' \<and>
            maxCapacity c' = maxCapacity ?d \<and>
            (maxCapacity ?d = 0 \<or> curCapacity c' \<le> maxCapacity ?d) \<and>
            evicted c' = evicted ?d @ es \<and> (es = [] \<longrightarrow> c' = ?d) \<and> cache c' \<subseteq>\<^sub>m cache ?d"
      using less.hyps [OF length_RemoveOldest [OF ne]] less.prems
      by (simp add: lru_inv_RemoveOldest)
    then obtain c' es where r: "evictLoop vlen ?d = Some c'" "lru_inv vlen c'"
      "maxCapacity c' = maxCapacity c" "maxCapacity c = 0 \<or> curCapacity c' \<le> maxCapacity c"
      "evicted c' = evicted ?d @ es" "cache c' \<subseteq>\<^sub>m cache ?d"
      by auto
    from RemoveOldest_effect [OF ne, of vlen] obtain e where
      e: "evicted ?d = evicted c @ [e]" and m: "cache ?d \<subseteq>\<^sub>m cache c" by auto
    have 1: "evictLoop vlen c = Some c'" using True r(1) by (simp add: evictLoop_step)
    have 2: "evicted c' = evicted c @ (e # es)" using r(5) e by simp
    have 3: "cache c' \<subseteq>\<^sub>m cache c" using r(6) m by (rule map_le_trans)
    show ?thesis using 1 2 3 r(2,3,4) by blast
  qed
qed

lemma Add_effect:
  assumes "lru_inv vlen c" "0 \<le> maxCapacity c"
  shows "\<exists>c' es. Add vlen c k v ex = Some c' \<and> lru_inv vlen c' \<and> maxCapacity c' = maxCapacity c \<and>
           (maxCapacity c = 0 \<or> curCapacity c' \<le> maxCapacity c) \<and>
           evicted c' = evicted c @ es \<and> (es = [] \<longrightarrow> c' = Add_store vlen c k v ex) \<and>
           cache c' \<subseteq>\<^sub>m cache (Add_store vlen c k v ex)"
proof -
  have m: "maxCapacity (Add_store vlen c k v ex) = maxCapacity c"
    and e: "evicted (Add_store vlen c k v ex) = evicted c"
    by (simp_all add: Add_store_def Let_def split: option.splits)
  show ?thesis
    using evictLoop_effect [OF lru_inv_Add_store [OF assms(1), of k v ex]] assms(2)
    by (simp add: Add_def m e)
qed

lemma lru_ok_New: "0 \<le> m \<Longrightarrow> lru_ok vlen (New m)"
  by (simp add: lru_ok_def lru_inv_New) (simp add: New_def)

lemma lru_ok_Add:
  "lru_ok vlen c \<Longrightarrow> \<exists>c'. Add vlen c k v ex = Some c' \<and> lru_ok vlen c' \<and> maxCapacity c' = maxCapacity c"
  using Add_effect [of vlen c k v ex] by (auto simp: lru_ok_def)

lemma lru_ok_removeElement:
  "lru_ok vlen c \<Longrightarrow> node \<in> set (ll c) \<Longrightarrow> lru_ok vlen (removeElement vlen c node)"
  by (auto simp: lru_ok_def lru_inv_removeElement) (simp_all add: removeElement_def)

lemma lru_ok_RemoveOldest: "lru_ok vlen c \<Longrightarrow> lru_ok vlen (RemoveOldest vlen c)"
  by (simp add: RemoveOldest_def lru_ok_removeElement)

lemma lru_ok_Get: "lru_ok vlen c \<Longrightarrow> lru_ok vlen (fst (Get vlen c k now))"
proof (cases "cache c k")
  case None
  assume "lru_ok vlen c"
  with None show ?thesis by (simp add: Get_def)
next
  case (Some node)
  assume a: "lru_ok vlen c"
  with Some have n: "node \<in> set (ll c)" by (auto simp: lru_ok_def lru_inv_def dest: index_of_SomeD)
  have "lru_ok vlen (c\<lparr>ll := MoveToFront (ll c) node\<rparr>)"
    using a lru_inv_MoveToFront [of vlen c node] n by (simp add: lru_ok_def)
  with a Some n show ?thesis
    by (simp add: Get_def lru_ok_removeElement)
qed

lemma maxCapacity_Get [simp]: "maxCapacity (fst (Get vlen c k now)) = maxCapacity c"
  by (simp add: Get_def removeElement_def split: option.splits)

lemma run_ops_ok:
  "lru_ok vlen c \<Longrightarrow>
   \<exists>c'. run_ops vlen c ops = Some c' \<and> lru_ok vlen c' \<and> maxCapacity c' = maxCapacity c"
proof (induction ops arbitrary: c)
  case Nil
  then show ?case by simp
next
  case (Cons a ops)
  show ?case
  proof (cases a)
    case (OpAdd k v ex)
    from lru_ok_Add [OF Cons.prems, of k v ex] obtain d where
      "Add vlen c k v ex = Some d" "lru_ok vlen d" "maxCapacity d = maxCapacity c" by blast
    with Cons.IH [of d] OpAdd show ?thesis by simp
  next
    case (OpGet k now)
    with Cons.IH [OF lru_ok_Get [OF Cons.prems, of k now]] show ?thesis by simp
  next
    case OpRemoveOldest
    with Cons.IH [OF lru_ok_RemoveOldest [OF Cons.prems]] show ?thesis by simp
  qed
qed

subsection \<open>Engines whose counter has not wrapped\<close>

lemma exact_live:
  "lru_inv vlen c \<Longrightarrow> - 9223372036854775808 \<le> live_bytes vlen c \<Longrightarrow>
   live_bytes vlen c < 9223372036854775808 \<Longrightarrow> curCapacity c = live_bytes vlen c"
  by (simp add: lru_inv_def int64_id)

lemma live_below: "lru_inv vlen c \<Longrightarrow> curCapacity c = live_bytes vlen c \<Longrightarrow>
  live_bytes vlen c < 9223372036854775808"
  using int64_range [of "live_bytes vlen c"] by (simp add: lru_inv_def)

lemma removeElement_exact:
  assumes "lru_inv vlen c" "curCapacity c = live_bytes vlen c" "node \<in> set (ll c)"
    and nn: "list_all (\<lambda>e. 0 \<le> vlen (val e)) (ll c)"
  shows "curCapacity (removeElement vlen c node) = live_bytes vlen (removeElement vlen c node)"
    and "curCapacity (removeElement vlen c node) \<le> curCapacity c"
    and "list_all (\<lambda>e. 0 \<le> vlen (val e)) (ll (removeElement vlen c node))"
proof -
  let ?d = "removeElement vlen c node"
  have i: "lru_inv vlen ?d" using assms(1,3) by (rule lru_inv_removeElement)
  have l: "live_bytes vlen ?d = live_bytes vlen c - entry_bytes vlen node"
    using assms(3) by (rule live_removeElement)
  from nn assms(3) have "0 \<le> vlen (val node)" by (simp add: list_all_iff)
  then have en: "0 \<le> entry_bytes vlen node" by (rule entry_bytes_nonneg)
  show nd: "list_all (\<lambda>e. 0 \<le> vlen (val e)) (ll ?d)"
    using list_all_remove1 [OF nn] by (simp add: removeElement_def)
  have "live_bytes vlen ?d \<le> live_bytes vlen c" using l en by simp
  with live_below [OF assms(1,2)] have "live_bytes vlen ?d < 9223372036854775808" by simp
  moreover have "- 9223372036854775808 \<le> live_bytes vlen ?d"
    using live_bytes_nonneg [OF nd] by simp
  ultimately show e: "curCapacity ?d = live_bytes vlen ?d" using i by (intro exact_live)
  show "curCapacity ?d \<le> curCapacity c" using e l assms(2) en by simp
qed

lemma lru_exact_removeElement:
  assumes "lru_exact vlen c" "node \<in> set (ll c)"
  shows "lru_exact vlen (removeElement vlen c node)"
proof -
  from assms(1) have ok: "lru_ok vlen c" and i: "lru_inv vlen c"
    and e: "curCapacity c = live_bytes vlen c" and m: "curCapacity c \<le> maxCapacity c"
    and nn: "list_all (\<lambda>e. 0 \<le> vlen (val e)) (ll c)"
    by (simp_all add: lru_exact_def lru_ok_def)
  have "maxCapacity (removeElement vlen c node) = maxCapacity c" by (simp add: removeElement_def)
  with lru_ok_removeElement [OF ok assms(2)] removeElement_exact [OF i e assms(2) nn] m
  show ?thesis by (simp add: lru_exact_def)
qed

lemma lru_exact_RemoveOldest: "lru_exact vlen c \<Longrightarrow> lru_exact vlen (RemoveOldest vlen c)"
  by (simp add: RemoveOldest_def lru_exact_removeElement)

lemma lru_exact_Get: "lru_exact vlen c \<Longrightarrow> lru_exact vlen (fst (Get vlen c k now))"
proof (cases "cache c k")
  case None
  assume "lru_exact vlen c"
  with None show ?thesis by (simp add: Get_def)
next
  case (Some node)
  assume a: "lru_exact vlen c"
  with Some have n: "node \<in> set (ll c)"
    by (auto simp: lru_exact_def lru_ok_def lru_inv_def dest: index_of_SomeD)
  from a have i: "lru_inv vlen c" and nn: "list_all (\<lambda>e. 0 \<le> vlen (val e)) (ll c)"
    by (simp_all add: lru_exact_def lru_ok_def)
  have "live_bytes vlen (c\<lparr>ll := MoveToFront (ll c) node\<rparr>) = live_bytes vlen c"
    using n by (simp add: live_bytes_def MoveToFront_def sum_remove1)
  moreover have "list_all (\<lambda>e. 0 \<le> vlen (val e)) (MoveToFront (ll c) node)"
    using n nn list_all_remove1 [OF nn, of node] by (simp add: MoveToFront_def list_all_iff)
  ultimately have "lru_exact vlen (c\<lparr>ll := MoveToFront (ll c) node\<rparr>)"
    using a lru_inv_MoveToFront [OF i n] by (simp add: lru_exact_def lru_ok_def)
  with a Some n show ?thesis
    by (simp add: Get_def lru_exact_removeElement)
qed

lemma evictLoop_exact:
  assumes "lru_inv vlen c" "0 < maxCapacity c" "curCapacity c = live_bytes vlen c"
    "list_all (\<lambda>e. 0 \<le> vlen (val e)) (ll c)"
  shows "\<exists>c'. evictLoop vlen c = Some c' \<and> lru_exact vlen c' \<and> maxCapacity c' = maxCapacity c"
  using assms
proof (induction "length (ll c)" arbitrary: c rule: less_induct)
  case less
  show ?case
  proof (cases "maxCapacity c < curCapacity c")
    case False
    with less.prems have "evictLoop vlen c = Some c" by (auto intro: evictLoop_stop)
    with False less.prems show ?thesis by (simp add: lru_exact_def lru_ok_def)
  next
    case True
    let ?d = "RemoveOldest vlen c"
    have ne: "ll c \<noteq> []"
    proof
      assume "ll c = []"
      with less.prems(1) have "curCapacity c = 0" by (simp add: lru_inv_def live_bytes_def)
      with True less.prems(2) show False by simp
    qed
    then have d: "?d = removeElement vlen c (last (ll c))" and n: "last (ll c) \<in> set (ll c)"
      by (simp_all add: RemoveOldest_def)
    have e: "curCapacity ?d = live_bytes vlen ?d"
      using removeElement_exact(1) [OF less.prems(1,3) n less.prems(4)] by (simp only: d)
    have nn: "list_all (\<lambda>e. 0 \<le> vlen (val e)) (ll ?d)"
      using removeElement_exact(3) [OF less.prems(1,3) n less.prems(4)] by (simp only: d)
    have i: "lru_inv vlen ?d" using less.prems(1) by (rule lru_inv_RemoveOldest)
    have m: "0 < maxCapacity ?d" using less.prems(2) by simp
    from less.hyps [OF length_RemoveOldest [OF ne] i m e nn]
    have "\<exists>c'. evictLoop vlen ?d = Some c' \<and> lru_exact vlen c' \<and> maxCapacity c' = maxCapacity c"
      by simp
    then show ?thesis using True less.prems(2) by (simp add: evictLoop_step)
  qed
qed

lemma lru_exact_Add:
  assumes "lru_exact vlen c" "0 < maxCapacity c"
    and "0 \<le> vlen v" "maxCapacity c + int (length k) + vlen v < 9223372036854775808"
  shows "\<exists>c'. Add vlen c k v ex = Some c' \<and> lru_exact vlen c' \<and> maxCapacity c' = maxCapacity c"
proof -
  let ?d = "Add_store vlen c k v ex"
  from assms(1) have i: "lru_inv vlen c" and e: "curCapacity c = live_bytes vlen c"
    and m: "curCapacity c \<le> maxCapacity c"
    and nn: "list_all (\<lambda>e. 0 \<le> vlen (val e)) (ll c)"
    by (simp_all add: lru_exact_def lru_ok_def)
  have id: "lru_inv vlen ?d" using i by (rule lru_inv_Add_store)
  have md: "maxCapacity ?d = maxCapacity c"
    by (simp add: Add_store_def Let_def split: option.splits)
  have nd: "list_all (\<lambda>e. 0 \<le> vlen (val e)) (ll ?d)" using nn assms(3) by (rule nonneg_Add_store)
  have "live_bytes vlen ?d < 9223372036854775808"
    using live_Add_store_le [OF i nn, of k v ex] e m assms(4) by simp
  moreover have "- 9223372036854775808 \<le> live_bytes vlen ?d"
    using live_bytes_nonneg [OF nd] by simp
  ultimately have "curCapacity ?d = live_bytes vlen ?d" using id by (intro exact_live)
  from evictLoop_exact [OF id _ this nd] assms(2) md show ?thesis by (simp add: Add_def)
qed

lemma run_ops_exact:
  "lru_exact vlen c \<Longrightarrow> 0 < maxCapacity c \<Longrightarrow> adds_fit (maxCapacity c) vlen ops \<Longrightarrow>
   \<exists>c'. run_ops vlen c ops = Some c' \<and> lru_exact vlen c'"
proof (induction ops arbitrary: c)
  case Nil
  then show ?case by simp
next
  case (Cons a ops)
  from Cons.prems(3) have rest: "adds_fit (maxCapacity c) vlen ops" and here: "add_fits (maxCapacity c) vlen a"
    by (simp_all add: adds_fit_def)
  show ?case
  proof (cases a)
    case (OpAdd k v ex)
    with here have "0 \<le> vlen v" "maxCapacity c + int (length k) + vlen v < 9223372036854775808"
      by simp_all
    from lru_exact_Add [OF Cons.prems(1,2) this, of ex] obtain d where
      d: "Add vlen c k v ex = Some d" "lru_exact vlen d" "maxCapacity d = maxCapacity c" by blast
    with Cons.IH [of d] Cons.prems(2) rest OpAdd show ?thesis by simp
  next
    case (OpGet k now)
    with Cons.IH [OF lru_exact_Get [OF Cons.prems(1), of k now]] Cons.prems(2) rest
    show ?thesis by simp
  next
    case OpRemoveOldest
    with Cons.IH [OF lru_exact_RemoveOldest [OF Cons.prems(1)]] Cons.prems(2) rest
    show ?thesis by simp
  qed
qed

lemma lru_exact_New: "0 \<le> m \<Longrightarrow> lru_exact vlen (New m)"
  by (simp add: lru_exact_def lru_ok_New) (simp add: New_def live_bytes_def)

lemma ran_index_of: "distinct (map key xs) \<Longrightarrow> ran (index_of xs) = set xs"
  by (auto simp: ran_def dest: index_of_SomeD index_of_SomeI)


text \<open>
  Claim C2, as stated, fails: the counter is an \<^verbatim>\<open>int64\<close> and a length is an
  \<^verbatim>\<open>int\<close>. On an engine of capacity 10, adding under the key \<open>k\<close> a value whose
  \<^verbatim>\<open>Len\<close> is \<open>2^63 - 1\<close> makes the sum \<open>1 + (2^63 - 1)\<close> wrap to \<open>-2^63\<close>: the
  loop of \<^verbatim>\<open>Add\<close> sees a counter below the capacity and evicts nothing, so the entry
  stays, the counter is not the sum of the live sizes, and that sum exceeds the capacity.
  And when a value of length \<open>-5\<close> and then one of length 13 are added, the counter is
  10 and nothing is evicted; \<^verbatim>\<open>RemoveOldest\<close> then takes the first entry out and
  returns with the counter at 14, above the capacity.
\<close>

theorem lru_byte_counter_counterexample:
  "map_option curCapacity (run_ops (\<lambda>n. n) (New 10) huge_ops) = Some (- 9223372036854775808) \<and>
   map_option (live_bytes (\<lambda>n. n)) (run_ops (\<lambda>n. n) (New 10) huge_ops) = Some 9223372036854775808 \<and>
   map_option (map key \<circ> ll) (run_ops (\<lambda>n. n) (New 10) huge_ops) = Some [''k''] \<and>
   map_option curCapacity (run_ops (\<lambda>n. n) (New 10) negative_ops) = Some 14 \<and>
   map_option (map key \<circ> ll) (run_ops (\<lambda>n. n) (New 10) negative_ops) = Some [''b'']"
  by (simp add: huge_ops_def negative_ops_def Add_def Add_store_def New_def evictLoop_stop Let_def
      int64_def live_bytes_def entry_bytes_def RemoveOldest_def removeElement_def)

text \<open>
  Claim C2, amended. Start from \<^verbatim>\<open>New(maxBytes)\<close> with \<open>maxBytes \<ge> 0\<close> and run any
  finite sequence of \<^verbatim>\<open>Add\<close>, \<^verbatim>\<open>Get\<close> and \<^verbatim>\<open>RemoveOldest\<close>. Every call
  returns, and the engine it leaves has: the entries of the map are the entries of the list
  (the live entries), and \<^verbatim>\<open>curCapacity\<close> is the sum of \<open>len(key) + value.Len()\<close>
  over them, reduced to an \<^verbatim>\<open>int64\<close>; it is the sum itself whenever the sum lies
  between \<open>-2^63\<close> and \<open>2^63 - 1\<close>. When \<open>maxBytes > 0\<close> and every entry the
  sequence adds has \<open>value.Len() \<ge> 0\<close> and \<open>maxBytes + len(key) + value.Len() < 2^63\<close>,
  the counter is the sum itself and does not exceed \<open>maxBytes\<close>. The sequence is
  arbitrary, so the statement holds after each of its operations.
\<close>

theorem lru_byte_counter:
  assumes "0 \<le> maxBytes"
  shows "\<exists>c. run_ops vlen (New maxBytes) ops = Some c \<and>
           ran (cache c) = set (ll c) \<and>
           curCapacity c = int64 (live_bytes vlen c) \<and>
           (- 9223372036854775808 \<le> live_bytes vlen c \<and> live_bytes vlen c < 9223372036854775808 \<longrightarrow>
              curCapacity c = live_bytes vlen c) \<and>
           (0 < maxBytes \<and> adds_fit maxBytes vlen ops \<longrightarrow>
              curCapacity c = live_bytes vlen c \<and> curCapacity c \<le> maxBytes)"
proof -
  have m: "maxCapacity (New maxBytes :: 'a LRUCache) = maxBytes" by (simp add: New_def)
  with run_ops_ok [OF lru_ok_New [OF assms], of vlen ops] obtain c where
    c: "run_ops vlen (New maxBytes) ops = Some c" "lru_ok vlen c" "maxCapacity c = maxBytes"
    by auto
  from c(2) have i: "lru_inv vlen c" by (simp add: lru_ok_def)
  then have 1: "ran (cache c) = set (ll c)" by (simp add: lru_inv_def ran_index_of)
  from i have 2: "curCapacity c = int64 (live_bytes vlen c)" by (simp add: lru_inv_def)
  have 3: "curCapacity c = live_bytes vlen c"
    if "- 9223372036854775808 \<le> live_bytes vlen c \<and> live_bytes vlen c < 9223372036854775808"
    using i that by (intro exact_live) simp_all
  have 4: "curCapacity c = live_bytes vlen c \<and> curCapacity c \<le> maxBytes"
    if "0 < maxBytes" "adds_fit maxBytes vlen ops"
  proof -
    from run_ops_exact [OF lru_exact_New [OF assms], of vlen ops] that m c(1)
    have "lru_exact vlen c" by auto
    with c(3) show ?thesis by (simp add: lru_exact_def)
  qed
  from c(1) 1 2 3 4 show ?thesis by blast
qed

theorem lru_byte_counter_witness:
  "(0::int) \<le> 10 \<and>
   (\<exists>c. run_ops str_len (New 10)
          [OpAdd ''a'' ''1'' 0, OpAdd ''b'' ''22'' 0, OpGet ''a'' 5, OpAdd ''c'' ''333'' 0,
           OpAdd ''d'' ''4444'' 0, OpRemoveOldest] = Some c \<and>
        ran (cache c) = set (ll c) \<and>
        curCapacity c = int64 (live_bytes str_len c) \<and>
        (0::int) < 10 \<and>
        adds_fit 10 str_len
          [OpAdd ''a'' ''1'' 0, OpAdd ''b'' ''22'' 0, OpGet ''a'' 5, OpAdd ''c'' ''333'' 0,
           OpAdd ''d'' ''4444'' 0, OpRemoveOldest] \<and>
        - 9223372036854775808 \<le> live_bytes str_len c \<and>
        live_bytes str_len c < 9223372036854775808 \<and>
        curCapacity c = live_bytes str_len c \<and> curCapacity c \<le> 10)"
proof -
  have f: "adds_fit 10 str_len
          [OpAdd ''a'' ''1'' 0, OpAdd ''b'' ''22'' 0, OpGet ''a'' 5, OpAdd ''c'' ''333'' 0,
           OpAdd ''d'' ''4444'' 0, OpRemoveOldest]"
    by (simp add: adds_fit_def str_len_def)
  from lru_byte_counter [of 10 str_len
          "[OpAdd ''a'' ''1'' 0, OpAdd ''b'' ''22'' 0, OpGet ''a'' 5, OpAdd ''c'' ''333'' 0,
           OpAdd ''d'' ''4444'' 0, OpRemoveOldest]"]
  obtain c where c: "run_ops str_len (New 10)
          [OpAdd ''a'' ''1'' 0, OpAdd ''b'' ''22'' 0, OpGet ''a'' 5, OpAdd ''c'' ''333'' 0,
           OpAdd ''d'' ''4444'' 0, OpRemoveOldest] = Some c"
       "ran (cache c) = set (ll c)" "curCapacity c = int64 (live_bytes str_len c)"
       "0 < (10::int) \<and> adds_fit 10 str_len
          [OpAdd ''a'' ''1'' 0, OpAdd ''b'' ''22'' 0, OpGet ''a'' 5, OpAdd ''c'' ''333'' 0,
           OpAdd ''d'' ''4444'' 0, OpRemoveOldest] \<longrightarrow>
          curCapacity c = live_bytes str_len c \<and> curCapacity c \<le> 10"
    by auto
  from c(4) f have e: "curCapacity c = live_bytes str_len c" "curCapacity c \<le> 10" by simp_all
  have "- 9223372036854775808 \<le> int64 (live_bytes str_len c)"
    using int64_range [of "live_bytes str_len c"] by simp
  with c(3) e have "- 9223372036854775808 \<le> live_bytes str_len c"
    "live_bytes str_len c < 9223372036854775808" by simp_all
  with c(1,2,3) e f show ?thesis by auto
qed

subsection \<open>Scenario S1\<close>

lemmas lru_eval = Let_def Add_def Add_store_def New_def evictLoop_stop evictLoop_step
  RemoveOldest_def removeElement_def entry_bytes_def Get_def MoveToFront_def IsZero_def Before_def
  int64_def str_len_def


text \<open>
  Claim C3, as stated, fails: the fourth insertion does not leave size 10 with \<open>a\<close>
  the only entry evicted.
\<close>

theorem S1_eviction_counterexample:
  "\<not> (map_option curCapacity (run_ops str_len (New 10) S1_ops) = Some 10 \<and>
      map_option evicted (run_ops str_len (New 10) S1_ops) = Some [(''a'', ''1'')])"
  by (simp add: S1_ops_def lru_eval)

text \<open>
  Claim C3, amended. The sizes after the first three insertions are 2, 5 and 9. Inserting
  \<open>d\<close> with four bytes adds 5 and raises the counter to 14; the loop evicts the oldest
  entry \<open>a\<close> (size 12, still above 10) and then \<open>b\<close>, and \<^verbatim>\<open>Add\<close> returns with
  size 9 and the entries \<open>d\<close>, \<open>c\<close>.
\<close>

theorem S1_eviction:
  "map_option curCapacity (run_ops str_len (New 10) (take 1 S1_ops)) = Some 2 \<and>
   map_option curCapacity (run_ops str_len (New 10) (take 2 S1_ops)) = Some 5 \<and>
   map_option curCapacity (run_ops str_len (New 10) (take 3 S1_ops)) = Some 9 \<and>
   map_option (\<lambda>c. curCapacity (Add_store str_len c ''d'' ''4444'' 0))
     (run_ops str_len (New 10) (take 3 S1_ops)) = Some 14 \<and>
   map_option (\<lambda>c. curCapacity (RemoveOldest str_len (Add_store str_len c ''d'' ''4444'' 0)))
     (run_ops str_len (New 10) (take 3 S1_ops)) = Some 12 \<and>
   map_option curCapacity (run_ops str_len (New 10) S1_ops) = Some 9 \<and>
   map_option evicted (run_ops str_len (New 10) S1_ops) = Some [(''a'', ''1''), (''b'', ''22'')] \<and>
   map_option (map key \<circ> ll) (run_ops str_len (New 10) S1_ops) = Some [''d'', ''c'']"
  by (simp add: S1_ops_def lru_eval)


subsection \<open>Reading back what was added\<close>

lemma run_ops_reach:
  assumes "0 \<le> m" "run_ops vlen (New m) ops = Some c"
  shows "lru_ok vlen c"
  using run_ops_ok [OF lru_ok_New [OF assms(1)], of vlen ops] assms(2) by auto

lemma Add_store_lookup:
  "\<exists>node. cache (Add_store vlen c k v ex) k = Some node \<and> key node = key node \<and> val node = v \<and> expire node = ex"
  by (simp add: Add_store_def Let_def split: option.splits)

lemma Get_absent: "cache c k = None \<Longrightarrow> Get vlen c k now = (c, None)"
  by (simp add: Get_def)


text \<open>
  Claim C4. On an engine reached from \<^verbatim>\<open>New(m)\<close>, \<open>m \<ge> 0\<close>, the call
  \<^verbatim>\<open>Add(k, v, ex)\<close> returns, and then:
  if \<open>ex\<close> is in the future of the clock and the \<^verbatim>\<open>Add\<close> evicted nothing,
  \<^verbatim>\<open>Get(k)\<close> returns \<open>(v, true)\<close>;
  if \<open>ex\<close> is in the past (and is not the zero instant, which means "never"),
  \<^verbatim>\<open>Get(k)\<close> returns not-found and leaves an engine without \<open>k\<close>: it is in neither
  the map nor the list, the counter is again the sum over the remaining entries (as an
  \<^verbatim>\<open>int64\<close>, and the sum itself when that lies between \<open>-2^63\<close> and
  \<open>2^63 - 1\<close>), and a second
  \<^verbatim>\<open>Get(k)\<close>, at any instant \<open>now'\<close>, misses.
\<close>

theorem lru_get_after_add:
  assumes "0 \<le> m" and "run_ops vlen (New m) ops = Some c"
  shows "\<exists>c'. Add vlen c k v ex = Some c' \<and>
           (now < ex \<and> evicted c' = evicted c \<longrightarrow> snd (Get vlen c' k now) = Some v) \<and>
           (ex \<noteq> 0 \<and> ex < now \<longrightarrow>
              snd (Get vlen c' k now) = None \<and>
              cache (fst (Get vlen c' k now)) k = None \<and>
              k \<notin> key ` set (ll (fst (Get vlen c' k now))) \<and>
              curCapacity (fst (Get vlen c' k now)) = int64 (live_bytes vlen (fst (Get vlen c' k now))) \<and>
              (- 9223372036854775808 \<le> live_bytes vlen (fst (Get vlen c' k now)) \<and>
               live_bytes vlen (fst (Get vlen c' k now)) < 9223372036854775808 \<longrightarrow>
                 curCapacity (fst (Get vlen c' k now)) = live_bytes vlen (fst (Get vlen c' k now))) \<and>
              snd (Get vlen (fst (Get vlen c' k now)) k now') = None)"
proof -
  have ok: "lru_ok vlen c" using assms by (rule run_ops_reach)
  then have "lru_inv vlen c" "0 \<le> maxCapacity c" by (simp_all add: lru_ok_def)
  from Add_effect [OF this, of k v ex] obtain c' es where
    a: "Add vlen c k v ex = Some c'" "lru_inv vlen c'" "evicted c' = evicted c @ es"
       "es = [] \<longrightarrow> c' = Add_store vlen c k v ex" "cache c' \<subseteq>\<^sub>m cache (Add_store vlen c k v ex)"
    by blast
  obtain node where n: "cache (Add_store vlen c k v ex) k = Some node" "val node = v" "expire node = ex"
    using Add_store_lookup [of vlen c k v ex] by blast
  have 1: "snd (Get vlen c' k now) = Some v" if "now < ex" "evicted c' = evicted c"
  proof -
    from that a have "c' = Add_store vlen c k v ex" by simp
    with n that(1) show ?thesis by (simp add: Get_def Before_def)
  qed
  have 2: "snd (Get vlen c' k now) = None \<and>
              cache (fst (Get vlen c' k now)) k = None \<and>
              k \<notin> key ` set (ll (fst (Get vlen c' k now))) \<and>
              curCapacity (fst (Get vlen c' k now)) = int64 (live_bytes vlen (fst (Get vlen c' k now))) \<and>
              (- 9223372036854775808 \<le> live_bytes vlen (fst (Get vlen c' k now)) \<and>
               live_bytes vlen (fst (Get vlen c' k now)) < 9223372036854775808 \<longrightarrow>
                 curCapacity (fst (Get vlen c' k now)) = live_bytes vlen (fst (Get vlen c' k now))) \<and>
              snd (Get vlen (fst (Get vlen c' k now)) k now') = None" if "ex \<noteq> 0" "ex < now"
  proof -
    let ?g = "Get vlen c' k now"
    have inv: "lru_inv vlen (fst ?g)" using a(2) by (rule lru_inv_Get)
    have r: "snd ?g = None \<and> cache (fst ?g) k = None"
    proof (cases "cache c' k")
      case None
      then show ?thesis by (simp add: Get_def)
    next
      case (Some e)
      with a(5) n have "e = node" by (auto simp: map_le_def dom_def)
      with Some n that have "?g = (removeElement vlen c' e, None)"
        by (simp add: Get_def IsZero_def Before_def)
      moreover have "key e = k" using Some a(2) by (auto simp: lru_inv_def dest: index_of_SomeD)
      ultimately show ?thesis by (simp add: removeElement_def)
    qed
    with inv have "k \<notin> key ` set (ll (fst ?g))" by (simp add: lru_inv_def index_of_None_iff)
    with r inv exact_live [OF inv] show ?thesis by (simp add: lru_inv_def Get_absent)
  qed
  from a(1) 1 2 show ?thesis by blast
qed


theorem lru_get_after_add_witness:
  "(0::int) \<le> 10 \<and> run_ops str_len (New 10) [] = Some (New 10) \<and>
   (\<exists>c'. Add str_len (New 10) ''k'' ''v'' 5000000000 = Some c' \<and>
      ((1000000000::int) < 5000000000 \<and> evicted c' = evicted (New 10) \<and>
       snd (Get str_len c' ''k'' 1000000000) = Some ''v'') \<and>
      ((5000000000::int) \<noteq> 0 \<and> (5000000000::int) < 6000000000 \<and>
       snd (Get str_len c' ''k'' 6000000000) = None \<and>
       cache (fst (Get str_len c' ''k'' 6000000000)) ''k'' = None \<and>
       curCapacity (fst (Get str_len c' ''k'' 6000000000)) = 0 \<and>
       snd (Get str_len (fst (Get str_len c' ''k'' 6000000000)) ''k'' 7000000000) = None))"
proof -
  let ?c = "New 10 :: string LRUCache"
  let ?d = "Add_store str_len ?c ''k'' ''v'' 5000000000"
  have r: "run_ops str_len ?c [] = Some ?c"
    by simp
  have e: "Add str_len ?c ''k'' ''v'' 5000000000 = Some ?d"
    by (simp add: lru_eval)
  from lru_get_after_add [OF _ r, of "''k''" "''v''" 5000000000 1000000000 7000000000]
  have f: "snd (Get str_len ?d ''k'' 1000000000) = Some ''v''"
    unfolding e by (simp add: lru_eval)
  from lru_get_after_add [OF _ r, of "''k''" "''v''" 5000000000 6000000000 7000000000]
  have p: "snd (Get str_len ?d ''k'' 6000000000) = None \<and>
       cache (fst (Get str_len ?d ''k'' 6000000000)) ''k'' = None \<and>
       snd (Get str_len (fst (Get str_len ?d ''k'' 6000000000)) ''k'' 7000000000) = None"
    unfolding e by simp
  have q: "curCapacity (fst (Get str_len ?d ''k'' 6000000000)) = 0"
    by (simp add: lru_eval)
  show ?thesis using r e f p q by (simp add: lru_eval)
qed

section \<open>Properties of the consistent-hash ring\<close>

lemma search_loop_stop: "\<not> i < j \<Longrightarrow> search_loop f i j = i"
  by (subst search_loop.simps) simp
lemma search_loop_lo: "i < j \<Longrightarrow> \<not> f ((i + j) div 2) \<Longrightarrow> search_loop f i j = search_loop f ((i + j) div 2 + 1) j"
  by (subst search_loop.simps) simp
lemma search_loop_hi: "i < j \<Longrightarrow> f ((i + j) div 2) \<Longrightarrow> search_loop f i j = search_loop f i ((i + j) div 2)"
  by (subst search_loop.simps) simp

lemma Itoa_digit: "n < 10 \<Longrightarrow> Itoa n = [''0123456789'' ! n]"
  by (subst Itoa.simps) simp

lemmas ch_eval = ch_build_def ch_New_def ch_Add_def ch_add_key_def ch_add_virtual_def
      identity_hash_def digit_val_def Let_def Itoa_digit ch_Get_def Search_def
  search_loop_stop search_loop_lo search_loop_hi

lemma search_loop_least:
  "(\<And>a b. a \<le> b \<Longrightarrow> b < n \<Longrightarrow> f a \<Longrightarrow> f b) \<Longrightarrow>
   i \<le> j \<Longrightarrow> j \<le> n \<Longrightarrow> (\<And>k. k < i \<Longrightarrow> \<not> f k) \<Longrightarrow>
   (\<And>k. j \<le> k \<Longrightarrow> k < n \<Longrightarrow> f k) \<Longrightarrow>
   search_loop f i j \<le> n \<and> (\<forall>k < search_loop f i j. \<not> f k) \<and>
   (\<forall>k. search_loop f i j \<le> k \<and> k < n \<longrightarrow> f k)"
proof (induction f i j rule: search_loop.induct)
  case (1 f i j)
  note mono = "1.prems"(1)
  show ?case
  proof (cases "i < j")
    case False
    with "1.prems" have "i = j" by simp
    with "1.prems" False show ?thesis by (simp add: search_loop_stop)
  next
    case True
    let ?h = "(i + j) div 2"
    have h: "i \<le> ?h" "?h < j" using True by auto
    have hn: "?h < n" using h(2) "1.prems"(3) by simp
    show ?thesis
    proof (cases "f ?h")
      case False
      have lo: "\<not> f k" if k: "k < ?h + 1" for k
      proof
        assume fk: "f k"
        from k have kh: "k \<le> ?h" by simp
        have "f ?h" using kh hn fk by (rule mono)
        with False show False by simp
      qed
      have "search_loop f (?h + 1) j \<le> n \<and> (\<forall>k < search_loop f (?h + 1) j. \<not> f k) \<and>
         (\<forall>k. search_loop f (?h + 1) j \<le> k \<and> k < n \<longrightarrow> f k)"
      proof (rule "1.IH"(1) [OF True refl False])
        show "?h + 1 \<le> j" using h by simp
        show "j \<le> n" by (rule "1.prems"(3))
        show "\<And>k. k < ?h + 1 \<Longrightarrow> \<not> f k" by (rule lo)
        show "\<And>k. j \<le> k \<Longrightarrow> k < n \<Longrightarrow> f k" by (rule "1.prems"(5))
        show "\<And>a b. a \<le> b \<Longrightarrow> b < n \<Longrightarrow> f a \<Longrightarrow> f b" by (rule mono)
      qed
      with True False show ?thesis by (simp add: search_loop_lo)
    next
      case fh: True
      have hi: "f k" if "?h \<le> k" "k < n" for k
        using that(1) that(2) fh by (rule mono)
      have "search_loop f i ?h \<le> n \<and> (\<forall>k < search_loop f i ?h. \<not> f k) \<and>
         (\<forall>k. search_loop f i ?h \<le> k \<and> k < n \<longrightarrow> f k)"
      proof (rule "1.IH"(2) [OF True refl])
        show "\<not> \<not> f ?h" using fh by simp
        show "i \<le> ?h" by (rule h(1))
        show "?h \<le> n" using hn by simp
        show "\<And>k. k < i \<Longrightarrow> \<not> f k" by (rule "1.prems"(4))
        show "\<And>k. ?h \<le> k \<Longrightarrow> k < n \<Longrightarrow> f k" by (rule hi)
        show "\<And>a b. a \<le> b \<Longrightarrow> b < n \<Longrightarrow> f a \<Longrightarrow> f b" by (rule mono)
      qed
      with True fh show ?thesis by (simp add: search_loop_hi)
    qed
  qed
qed

lemma dom_add_virtual:
  "set (ring m) \<subseteq> dom (hashMap m) \<Longrightarrow>
   set (ring (ch_add_virtual k i m)) \<subseteq> dom (hashMap (ch_add_virtual k i m))"
  by (auto simp: ch_add_virtual_def Let_def)

lemma dom_fold_virtual:
  "set (ring m) \<subseteq> dom (hashMap m) \<Longrightarrow>
   set (ring (fold (ch_add_virtual k) is m)) \<subseteq> dom (hashMap (fold (ch_add_virtual k) is m))"
  by (induction "is" arbitrary: m) (simp_all add: dom_add_virtual)

lemma dom_fold_key:
  "set (ring m) \<subseteq> dom (hashMap m) \<Longrightarrow>
   set (ring (fold ch_add_key ks m)) \<subseteq> dom (hashMap (fold ch_add_key ks m))"
  by (induction ks arbitrary: m) (simp_all add: ch_add_key_def dom_fold_virtual)

lemma ch_ok_Add: "ch_ok m \<Longrightarrow> ch_ok (ch_Add m ks)"
  using dom_fold_key [of m ks] by (simp add: ch_ok_def ch_Add_def Let_def)

lemma hash_add_virtual [simp]: "hash (ch_add_virtual k i m) = hash m"
  by (simp add: ch_add_virtual_def Let_def)

lemma hash_fold_virtual [simp]: "hash (fold (ch_add_virtual k) is m) = hash m"
  by (induction "is" arbitrary: m) simp_all

lemma hash_fold_key [simp]: "hash (fold ch_add_key ks m) = hash m"
  by (induction ks arbitrary: m) (simp_all add: ch_add_key_def)

lemma hash_Add [simp]: "hash (ch_Add m ks) = hash m"
  by (simp add: ch_Add_def Let_def)

lemma ch_build_ok: "ch_ok (ch_build n fn batches) \<and> hash (ch_build n fn batches) = fn"
proof -
  have "ch_ok m \<Longrightarrow> ch_ok (fold (\<lambda>keys m. ch_Add m keys) batches m) \<and>
        hash (fold (\<lambda>keys m. ch_Add m keys) batches m) = hash m" for m
    by (induction batches arbitrary: m) (simp_all add: ch_ok_Add)
  from this [of "ch_New n fn"] show ?thesis
    by (simp add: ch_build_def) (simp add: ch_New_def ch_ok_def)
qed

lemma Search_ring:
  assumes "sorted xs"
  shows "Search (length xs) (\<lambda>i. xs ! i \<ge> (h::int)) \<le> length xs \<and>
         (\<forall>k < Search (length xs) (\<lambda>i. xs ! i \<ge> h). xs ! k < h) \<and>
         (\<forall>k. Search (length xs) (\<lambda>i. xs ! i \<ge> h) \<le> k \<and> k < length xs \<longrightarrow> h \<le> xs ! k)"
proof -
  have mono: "\<And>a b. a \<le> b \<Longrightarrow> b < length xs \<Longrightarrow> h \<le> xs ! a \<Longrightarrow> h \<le> xs ! b"
    using assms by (meson order_trans sorted_nth_mono)
  from search_loop_least [of "length xs" "\<lambda>i. xs ! i \<ge> h" 0 "length xs", OF mono]
  show ?thesis by (simp add: Search_def not_le)
qed

text \<open>
  Claim C5. On every ring built by \<^verbatim>\<open>New\<close> and calls of \<^verbatim>\<open>Add\<close>: \<^verbatim>\<open>Get(key)\<close> is
  the empty string when the ring is empty; when some virtual hash is at least
  \<open>hash(key)\<close>, the peer mapped by the smallest such hash is returned; when none is, the
  peer mapped by the hash at ring index 0. In scenario S4 (identity hash, one replica, peers
  6, 4, 2 added) the ring is \<open>[2, 4, 6]\<close> and the keys 3, 5, 7 go to 4, 6 and, wrapping, 2.
\<close>

theorem ch_Get_owner:
  "(ring (ch_build n fn batches) = [] \<longrightarrow> ch_Get (ch_build n fn batches) k = []) \<and>
   (\<forall>x \<in> set (ring (ch_build n fn batches)).
      uint (fn k) \<le> x \<and> (\<forall>y \<in> set (ring (ch_build n fn batches)). uint (fn k) \<le> y \<longrightarrow> x \<le> y) \<longrightarrow>
      hashMap (ch_build n fn batches) x = Some (ch_Get (ch_build n fn batches) k)) \<and>
   (ring (ch_build n fn batches) \<noteq> [] \<and> (\<forall>y \<in> set (ring (ch_build n fn batches)). y < uint (fn k)) \<longrightarrow>
      hashMap (ch_build n fn batches) (ring (ch_build n fn batches) ! 0) =
        Some (ch_Get (ch_build n fn batches) k)) \<and>
   ring (ch_build 1 identity_hash [[''6'', ''4'', ''2'']]) = [2, 4, 6] \<and>
   ch_Get (ch_build 1 identity_hash [[''6'', ''4'', ''2'']]) ''3'' = ''4'' \<and>
   ch_Get (ch_build 1 identity_hash [[''6'', ''4'', ''2'']]) ''5'' = ''6'' \<and>
   ch_Get (ch_build 1 identity_hash [[''6'', ''4'', ''2'']]) ''7'' = ''2''"
proof -
  let ?m = "ch_build n fn batches"
  let ?h = "uint (fn k)"
  let ?idx = "Search (length (ring ?m)) (\<lambda>i. ring ?m ! i \<ge> ?h)"
  have ok: "sorted (ring ?m)" "set (ring ?m) \<subseteq> dom (hashMap ?m)" and hm: "hash ?m = fn"
    using ch_build_ok [of n fn batches] by (simp_all add: ch_ok_def)
  from Search_ring [OF ok(1), of ?h] have
    s: "?idx \<le> length (ring ?m)" "\<And>k. k < ?idx \<Longrightarrow> ring ?m ! k < ?h"
       "\<And>k. ?idx \<le> k \<Longrightarrow> k < length (ring ?m) \<Longrightarrow> ?h \<le> ring ?m ! k"
    by auto
  have get: "hashMap ?m (ring ?m ! (?idx mod length (ring ?m))) = Some (ch_Get ?m k)"
    if ne: "ring ?m \<noteq> []"
  proof -
    have "ring ?m ! (?idx mod length (ring ?m)) \<in> set (ring ?m)" using ne by simp
    with ok(2) obtain p where "hashMap ?m (ring ?m ! (?idx mod length (ring ?m))) = Some p" by blast
    with ne show ?thesis by (simp add: ch_Get_def hm Let_def)
  qed
  have 1: "ring ?m = [] \<longrightarrow> ch_Get ?m k = []" by (simp add: ch_Get_def)
  have 2: "hashMap ?m x = Some (ch_Get ?m k)"
    if x: "x \<in> set (ring ?m)" "?h \<le> x" "\<forall>y \<in> set (ring ?m). ?h \<le> y \<longrightarrow> x \<le> y" for x
  proof -
    from x(1) have ne: "ring ?m \<noteq> []" by auto
    from x(1) obtain j where j: "j < length (ring ?m)" "ring ?m ! j = x" by (auto simp: in_set_conv_nth)
    have ij: "?idx \<le> j" using s(2) [of j] j x(2) by (cases "?idx \<le> j") auto
    with j have lt: "?idx < length (ring ?m)" by simp
    then have "?h \<le> ring ?m ! ?idx" using s(3) [of ?idx] by simp
    with x(3) lt have "x \<le> ring ?m ! ?idx" by simp
    moreover have "ring ?m ! ?idx \<le> x" using ok(1) ij j by (auto simp: sorted_nth_mono)
    ultimately have "ring ?m ! ?idx = x" by simp
    with get [OF ne] lt show ?thesis by simp
  qed
  have 3: "hashMap ?m (ring ?m ! 0) = Some (ch_Get ?m k)"
    if ne: "ring ?m \<noteq> []" and all: "\<forall>y \<in> set (ring ?m). y < ?h"
  proof -
    have "?idx = length (ring ?m)"
    proof (rule ccontr)
      assume "?idx \<noteq> length (ring ?m)"
      with s(1) have lt: "?idx < length (ring ?m)" by simp
      then have "?h \<le> ring ?m ! ?idx" using s(3) [of ?idx] by simp
      moreover have "ring ?m ! ?idx < ?h" using all lt by simp
      ultimately show False by simp
    qed
    with get [OF ne] show ?thesis by simp
  qed
  have 4: "ring (ch_build 1 identity_hash [[''6'', ''4'', ''2'']]) = [2, 4, 6]"
    by (simp add: ch_eval)
  have 5: "ch_Get (ch_build 1 identity_hash [[''6'', ''4'', ''2'']]) ''3'' = ''4''"
    by (simp add: ch_eval)
  have 6: "ch_Get (ch_build 1 identity_hash [[''6'', ''4'', ''2'']]) ''5'' = ''6''"
    by (simp add: ch_eval)
  have 7: "ch_Get (ch_build 1 identity_hash [[''6'', ''4'', ''2'']]) ''7'' = ''2''"
    by (simp add: ch_eval)
  from 1 2 3 4 5 6 7 show ?thesis by blast
qed

theorem ch_Get_owner_witness:
  "ring (ch_build 1 identity_hash []) = [] \<and>
   ch_Get (ch_build 1 identity_hash []) ''3'' = [] \<and>
   4 \<in> set (ring (ch_build 1 identity_hash [[''6'', ''4'', ''2'']])) \<and>
   uint (identity_hash ''3'') \<le> 4 \<and>
   hashMap (ch_build 1 identity_hash [[''6'', ''4'', ''2'']]) 4 =
     Some (ch_Get (ch_build 1 identity_hash [[''6'', ''4'', ''2'']]) ''3'') \<and>
   ring (ch_build 1 identity_hash [[''6'', ''4'', ''2'']]) \<noteq> [] \<and>
   hashMap (ch_build 1 identity_hash [[''6'', ''4'', ''2'']])
     (ring (ch_build 1 identity_hash [[''6'', ''4'', ''2'']]) ! 0) =
     Some (ch_Get (ch_build 1 identity_hash [[''6'', ''4'', ''2'']]) ''7'')"
  using ch_Get_owner [of 1 identity_hash "[]" "''3''"]
    ch_Get_owner [of 1 identity_hash "[[''6'', ''4'', ''2'']]" "''3''"]
    ch_Get_owner [of 1 identity_hash "[[''6'', ''4'', ''2'']]" "''7''"]
  by (simp add: ch_eval)

section \<open>Properties of the server\<close>

lemma length_fold_virtual:
  "length (ring (fold (ch_add_virtual k) is m)) = length (ring m) + length is"
  by (induction "is" arbitrary: m) (simp_all add: ch_add_virtual_def Let_def)

lemma replicas_fold_virtual [simp]: "replicas (fold (ch_add_virtual k) is m) = replicas m"
  by (induction "is" arbitrary: m) (simp_all add: ch_add_virtual_def Let_def)

lemma replicas_add_key [simp]: "replicas (ch_add_key k m) = replicas m"
  by (simp add: ch_add_key_def)

lemma length_add_key: "length (ring (ch_add_key k m)) = length (ring m) + nat (replicas m)"
  by (simp add: ch_add_key_def length_fold_virtual)

lemma fold_add_key:
  "replicas (fold ch_add_key ks m) = replicas m \<and>
   length (ring (fold ch_add_key ks m)) = length (ring m) + nat (replicas m) * length ks"
  by (induction ks arbitrary: m) (simp_all add: length_add_key)

lemma ch_Add_ring:
  "replicas (ch_Add m ks) = replicas m \<and>
   length (ring (ch_Add m ks)) = length (ring m) + nat (replicas m) * length ks"
  using fold_add_key [of ks m] by (simp add: ch_Add_def Let_def)

lemma srv_ok_New: "srv_ok (NewServer crc addr)"
  by (simp add: srv_ok_def NewServer_def ch_New_def)

lemma srv_ok_Set: "srv_ok s \<Longrightarrow> \<exists>s'. Set s addrs = Return s' \<and> srv_ok s' \<and> self s' = self s"
proof -
  assume a: "srv_ok s"
  then obtain m where m: "srv_peers s = Some m" "replicas m = defaultReplicas"
    "ring m = [] \<longrightarrow> clients s = Map.empty" and f: "\<not> mu s"
    by (auto simp: srv_ok_def split: option.splits)
  have "ring (ch_Add m addrs) = [] \<longrightarrow> ring m = [] \<and> addrs = []"
    using ch_Add_ring [of m addrs] m(2) by (auto simp: defaultReplicas_def)
  with m f show ?thesis
    using ch_Add_ring [of m addrs] by (auto simp: Set_def Lock_def Unlock_def srv_ok_def)
qed

lemma srv_build_ok:
  "srv_ok s \<Longrightarrow> srv_build s batches = Return s' \<Longrightarrow> srv_ok s' \<and> self s' = self s"
proof (induction batches arbitrary: s)
  case Nil
  then show ?case by simp
next
  case (Cons a batches)
  from srv_ok_Set [OF Cons.prems(1), of a] obtain s1 where
    s1: "Set s a = Return s1" "srv_ok s1" "self s1 = self s" by blast
  with Cons.prems(2) have "srv_build s1 batches = Return s'" by (simp add: obind_def)
  with Cons.IH [OF s1(2)] s1(3) show ?case by simp
qed

text \<open>
  While the mutex is free: whenever the ring of the server maps \<open>k\<close> to an address other
  than \<^verbatim>\<open>self\<close> that has no entry in \<^verbatim>\<open>clients\<close>, \<^verbatim>\<open>PickPeer(k)\<close> returns a
  nil client together with \<^verbatim>\<open>ok = true\<close>. In particular, on a server built by
  \<^verbatim>\<open>NewServer\<close> and calls of \<^verbatim>\<open>Set\<close> whose ring is empty and whose address is not the
  empty string, the ring answers the empty string and \<^verbatim>\<open>PickPeer\<close> returns
  \<open>(nil, true)\<close> for every key.
\<close>

lemma PickPeer_nil_client:
  "(\<not> mu s \<and> srv_peers s = Some m \<and> ch_Get m k \<noteq> self s \<and> clients s (ch_Get m k) = None \<longrightarrow>
      PickPeer s k = Return (None, True)) \<and>
   (srv_build (NewServer crc addr) batches = Return s' \<and> srv_peers s' = Some m' \<and>
    ring m' = [] \<and> addr \<noteq> [] \<longrightarrow>
      ch_Get m' k = [] \<and> PickPeer s' k = Return (None, True))"
proof -
  have 1: "PickPeer s k = Return (None, True)"
    if "\<not> mu s" "srv_peers s = Some m" "ch_Get m k \<noteq> self s" "clients s (ch_Get m k) = None"
    using that by (simp add: PickPeer_def Lock_def)
  have 2: "ch_Get m' k = [] \<and> PickPeer s' k = Return (None, True)"
    if b: "srv_build (NewServer crc addr) batches = Return s'" and m: "srv_peers s' = Some m'"
      and r: "ring m' = []" and a: "addr \<noteq> []"
  proof -
    from srv_build_ok [OF srv_ok_New b] have ok: "srv_ok s'" and self: "self s' = addr"
      by (simp_all add: NewServer_def)
    from ok m r have "clients s' = Map.empty" "\<not> mu s'" by (simp_all add: srv_ok_def)
    moreover have "ch_Get m' k = []" using r by (simp add: ch_Get_def)
    ultimately show ?thesis using m self a by (simp add: PickPeer_def Lock_def)
  qed
  from 1 2 show ?thesis by blast
qed

lemma PickPeer_nil_client_example:
  "srv_peers (NewServer identity_hash ''localhost:9999'') = Some (ch_New 50 identity_hash) \<and>
   \<not> mu (NewServer identity_hash ''localhost:9999'') \<and>
   ch_Get (ch_New 50 identity_hash) ''Sam'' \<noteq> self (NewServer identity_hash ''localhost:9999'') \<and>
   clients (NewServer identity_hash ''localhost:9999'') (ch_Get (ch_New 50 identity_hash) ''Sam'') = None \<and>
   srv_build (NewServer identity_hash ''localhost:9999'') [] = Return (NewServer identity_hash ''localhost:9999'') \<and>
   ring (ch_New 50 identity_hash) = [] \<and>
   ''localhost:9999'' \<noteq> [] \<and>
   ch_Get (ch_New 50 identity_hash) ''Sam'' = [] \<and>
   PickPeer (NewServer identity_hash ''localhost:9999'') ''Sam'' = Return (None, True)"
  using PickPeer_nil_client [of "NewServer identity_hash ''localhost:9999''" "ch_New 50 identity_hash"
      "''Sam''" identity_hash "''localhost:9999''" "[]" "NewServer identity_hash ''localhost:9999''"
      "ch_New 50 identity_hash"]
  by (simp add: NewServer_def defaultReplicas_def ch_New_def ch_Get_def)

text \<open>
  Claim C10 at the failing input. A server is made by \<^verbatim>\<open>NewServer("localhost:9999")\<close>
  and started while the port is taken: \<^verbatim>\<open>Start\<close> returns "failed to listen" and leaves
  the mutex held, since that return has no \<^verbatim>\<open>Unlock\<close> (the return of "server already
  started", four lines above it, has one). The ring is empty, so it maps the key \<open>"Sam"\<close>
  to the empty string, which is not \<^verbatim>\<open>self\<close> and has no client: the claim has
  \<^verbatim>\<open>PickPeer("Sam")\<close> return a nil client with \<^verbatim>\<open>ok = true\<close>. The call blocks in
  \<^verbatim>\<open>s.mu.Lock()\<close> and never returns; so do \<^verbatim>\<open>Set\<close> and a second \<^verbatim>\<open>Start\<close>.
\<close>

theorem PickPeer_blocks_after_failed_listen:
  "Start busy_env (NewServer identity_hash ''localhost:9999'') =
     Return (stuck_server, Some ''failed to listen: address already in use'') \<and>
   srv_peers stuck_server = Some (ch_New 50 identity_hash) \<and>
   ch_Get (ch_New 50 identity_hash) ''Sam'' = [] \<and>
   self stuck_server = ''localhost:9999'' \<and>
   clients stuck_server [] = None \<and>
   PickPeer stuck_server ''Sam'' = Hang \<and>
   Set stuck_server [''localhost:9998''] = Hang \<and>
   Start busy_env stuck_server = Hang"
  by (simp add: Start_def Set_def PickPeer_def Lock_def Unlock_def busy_env_def stuck_server_def
      NewServer_def defaultReplicas_def ch_New_def ch_Get_def)

section \<open>Properties of the group\<close>

subsection \<open>Hot promotion\<close>

lemma obind_Return [simp]: "obind (Return a) f = f a"
  by (simp add: obind_def)

lemma obind_Panic [simp]: "obind (Panic p) f = Panic p"
  by (simp add: obind_def)

lemma obind_Hang [simp]: "obind Hang f = Hang"
  by (simp add: obind_def)

lemma sdiv_one: "x sdiv (1::int) = x"
  by (simp add: signed_divide_int_def sgn_mult_abs)

lemma Unix_window:
  assumes "t1 \<le> t" "t \<le> t1 + 60000000000"
  shows "0 \<le> Unix t - Unix t1 \<and> Unix t - Unix t1 \<le> 60"
proof -
  have a: "t1 div 1000000000 \<le> t div 1000000000" using assms(1) by (rule zdiv_mono1) simp
  have "t div 1000000000 \<le> (t1 + 60000000000) div 1000000000" using assms(2) by (rule zdiv_mono1) simp
  also have "\<dots> = t1 div 1000000000 + 60" by simp
  finally show ?thesis using a by (simp add: Unix_def)
qed

lemma round_minutes_window: "0 \<le> d \<Longrightarrow> d \<le> 60 \<Longrightarrow> max 1 (round_minutes d) = 1"
  by (simp add: round_minutes_def max_def) arith

lemma qps_window:
  assumes "t1 \<le> t" "t \<le> t1 + 60000000000"
  shows "c sdiv (max 1 (round_minutes (Unix t - Unix t1))) = c"
  using Unix_window [OF assms] by (simp add: round_minutes_window sdiv_one)

lemma getFromPeer_first:
  "keys g k = None \<Longrightarrow>
   getFromPeer g w (peer_ok v) k t =
     Return (g\<lparr>keys := (keys g)(k \<mapsto> \<lparr>firstGetTime = t, remoteCnt = 1\<rparr>)\<rparr>, w, Inr \<lparr>bv_b = v, bv_e = 0\<rparr>)"
  by (simp add: getFromPeer_def peer_ok_def)

lemma getFromPeer_below:
  assumes "keys g k = Some \<lparr>firstGetTime = t1, remoteCnt = c\<rparr>" "c + 1 < 10"
    "t1 \<le> t" "t \<le> t1 + 60000000000"
  shows "getFromPeer g w (peer_ok v) k t =
     Return (g\<lparr>keys := (keys g)(k \<mapsto> \<lparr>firstGetTime = t1, remoteCnt = c + 1\<rparr>)\<rparr>, w,
             Inr \<lparr>bv_b = v, bv_e = 0\<rparr>)"
  using assms(1,2) qps_window [OF assms(3,4)]
  by (simp add: getFromPeer_def peer_ok_def Let_def maxMinuteRemoteQPS_def)

lemma getFromPeer_promote:
  assumes "keys g k = Some \<lparr>firstGetTime = t1, remoteCnt = 9\<rparr>"
    "t1 \<le> t" "t \<le> t1 + 60000000000"
  shows "getFromPeer g w (peer_ok v) k t =
     obind (populateHotCache (g\<lparr>keys := (keys g)(k \<mapsto> \<lparr>firstGetTime = t1, remoteCnt = 10\<rparr>)\<rparr>) k
              \<lparr>bv_b = v, bv_e = 0\<rparr>)
       (\<lambda>g2. Return (g2\<lparr>keys := (keys g2)(k := None)\<rparr>, w, Inr \<lparr>bv_b = v, bv_e = 0\<rparr>))"
  using assms(1) qps_window [OF assms(2,3)]
  by (simp add: getFromPeer_def peer_ok_def Let_def maxMinuteRemoteQPS_def)

lemma remote_fetches_below:
  "keys g k = Some \<lparr>firstGetTime = t1, remoteCnt = c\<rparr> \<Longrightarrow> c + int (length fs) < 10 \<Longrightarrow>
   in_window t1 fs \<Longrightarrow>
   remote_fetches g w k fs =
     Return (g\<lparr>keys := (keys g)(k \<mapsto> \<lparr>firstGetTime = t1, remoteCnt = c + int (length fs)\<rparr>)\<rparr>, w)"
proof (induction fs arbitrary: g c)
  case Nil
  then have "(keys g)(k \<mapsto> \<lparr>firstGetTime = t1, remoteCnt = c\<rparr>) = keys g" by (auto simp: fun_eq_iff)
  then show ?case by simp
next
  case (Cons a fs)
  obtain v t where a: "a = (v, t)" by (cases a)
  let ?g = "g\<lparr>keys := (keys g)(k \<mapsto> \<lparr>firstGetTime = t1, remoteCnt = c + 1\<rparr>)\<rparr>"
  from Cons.prems a have t: "t1 \<le> t" "t \<le> t1 + 60000000000" and w: "in_window t1 fs"
    by (simp_all add: in_window_def)
  have "getFromPeer g w (peer_ok v) k t = Return (?g, w, Inr \<lparr>bv_b = v, bv_e = 0\<rparr>)"
    using Cons.prems(1) _ t by (rule getFromPeer_below) (use Cons.prems(2) in simp)
  moreover have "remote_fetches ?g w k fs =
     Return (?g\<lparr>keys := (keys ?g)(k \<mapsto> \<lparr>firstGetTime = t1, remoteCnt = c + 1 + int (length fs)\<rparr>)\<rparr>, w)"
    using Cons.prems(2) w by (intro Cons.IH) simp_all
  moreover have "?g\<lparr>keys := (keys ?g)(k \<mapsto> \<lparr>firstGetTime = t1, remoteCnt = c + 1 + int (length fs)\<rparr>)\<rparr> =
      g\<lparr>keys := (keys g)(k \<mapsto> \<lparr>firstGetTime = t1, remoteCnt = c + int (length (a # fs))\<rparr>)\<rparr>"
    by (simp add: add.assoc)
  ultimately show ?case by (simp only: a remote_fetches.simps obind_Return split)
qed

lemma remote_fetches_append:
  "remote_fetches g w k fs = Return (g1, w1) \<Longrightarrow>
   remote_fetches g w k (fs @ fs') = remote_fetches g1 w1 k fs'"
proof (induction fs arbitrary: g w)
  case Nil
  then show ?case by simp
next
  case (Cons a fs)
  obtain v t where a: "a = (v, t)" by (cases a)
  show ?case
  proof (cases "getFromPeer g w (peer_ok v) k t")
    case (Return r)
    obtain g2 w2 res where r: "r = (g2, w2, res)" by (cases r)
    from Cons.prems Return have "remote_fetches g2 w2 k fs = Return (g1, w1)" by (simp add: a r)
    from Cons.IH [OF this] Return show ?thesis by (simp add: a r)
  next
    case (Panic p)
    with Cons.prems show ?thesis by (simp add: a)
  next
    case Hang
    with Cons.prems show ?thesis by (simp add: a)
  qed
qed

lemma LRUcache_add_fresh:
  assumes "cb = 0 \<or> int (length k) + Len v \<le> cb"
  shows "LRUcache_add \<lparr>lru = None, cacheBytes = cb\<rparr> k v =
           Return \<lparr>lru = Some (Add_store Len (New cb) k v (Expire v)), cacheBytes = cb\<rparr>"
proof -
  have "evictLoop Len (Add_store Len (New cb) k v (Expire v)) = Some (Add_store Len (New cb) k v (Expire v))"
    using assms int64_le [of "int (length k) + Len v"]
    by (intro evictLoop_stop) (auto simp add: Add_store_def New_def Let_def Len_def)
  then show ?thesis by (simp add: LRUcache_add_def Add_def)
qed

lemma LRUcache_get_fresh:
  "LRUcache_get \<lparr>lru = Some (Add_store Len (New cb) k \<lparr>bv_b = v, bv_e = 0\<rparr> 0), cacheBytes = cb\<rparr> k now =
     (\<lparr>lru = Some (Add_store Len (New cb) k \<lparr>bv_b = v, bv_e = 0\<rparr> 0), cacheBytes = cb\<rparr>,
      Some \<lparr>bv_b = v, bv_e = 0\<rparr>)"
  by (simp add: LRUcache_get_def Get_def Add_store_def New_def Let_def IsZero_def MoveToFront_def)

lemma decompose_ten:
  assumes "length fs = 10"
  shows "\<exists>a mid z. fs = a # mid @ [z] \<and> length mid = 8 \<and> hd fs = a \<and> last fs = z"
proof -
  from assms obtain a rest where f: "fs = a # rest" by (cases fs) auto
  with assms have "rest \<noteq> []" by auto
  then obtain mid z where r: "rest = mid @ [z]" by (metis rev_exhaust)
  with f assms show ?thesis by auto
qed

text \<open>
  Claim C6, amended. Take a group fresh from \<^verbatim>\<open>NewGroup\<close> whose capacity admits the
  entry, and ten successful remote fetches of a key \<open>k\<close>, all within one minute of the
  first. The first creates the statistics of \<open>k\<close> with count 1; the counts 2 to 9 stay
  below \<^verbatim>\<open>maxMinuteRemoteQPS = 10\<close>; the tenth reaches it. After the tenth fetch the
  value it fetched is in the hot cache, \<open>k\<close> is absent from \<^verbatim>\<open>keys\<close>, and
  \<^verbatim>\<open>GetCacheData(k)\<close> is served by the hot cache and logs "hit hotCache". An eleventh
  fetch, at any instant, creates a new entry for \<open>k\<close> with count 1 and leaves the hot
  cache as it is.
\<close>

theorem hot_promotion:
  assumes new: "NewGroup groups nm cb (Some f) = Return (g0, groups')"
    and len: "length fs = 10"
    and win: "in_window (snd (hd fs)) fs"
    and fits: "cb = 0 \<or> int (length k) + int (s_len (fst (last fs))) \<le> cb"
    and k: "k \<noteq> []"
  shows "\<exists>g. remote_fetches g0 w k fs = Return (g, w) \<and>
           keys g k = None \<and>
           snd (LRUcache_get (hotCache g) k now) = Some \<lparr>bv_b = fst (last fs), bv_e = 0\<rparr> \<and>
           GetCacheData g w k now =
             Return (g, w\<lparr>logs := logs w @ [''[GeeCache] hit hotCache'']\<rparr>,
                     Inr \<lparr>bv_b = fst (last fs), bv_e = 0\<rparr>) \<and>
           (\<exists>g'. remote_fetches g w k [(v11, t11)] = Return (g', w) \<and>
                 keys g' k = Some \<lparr>firstGetTime = t11, remoteCnt = 1\<rparr> \<and>
                 hotCache g' = hotCache g)"
proof -
  from decompose_ten [OF len] obtain a mid z where
    fs: "fs = a # mid @ [z]" and mid: "length mid = 8" by blast
  obtain v1 t1 where a: "a = (v1, t1)" by (cases a)
  obtain v10 t10 where z: "z = (v10, t10)" by (cases z)
  from new have g0: "keys g0 = Map.empty" "hotCache g0 = \<lparr>lru = None, cacheBytes = cb\<rparr>"
    by (auto simp: NewGroup_def Let_def)
  from win have wmid: "in_window t1 mid" and wz: "t1 \<le> t10" "t10 \<le> t1 + 60000000000"
    by (simp_all add: fs a z in_window_def)
  let ?g1 = "g0\<lparr>keys := (keys g0)(k \<mapsto> \<lparr>firstGetTime = t1, remoteCnt = 1\<rparr>)\<rparr>"
  let ?g9 = "?g1\<lparr>keys := (keys ?g1)(k \<mapsto> \<lparr>firstGetTime = t1, remoteCnt = 1 + int (length mid)\<rparr>)\<rparr>"
  let ?view = "\<lparr>bv_b = v10, bv_e = 0\<rparr>"
  let ?hot = "\<lparr>lru = Some (Add_store Len (New cb) k ?view 0), cacheBytes = cb\<rparr>"
  let ?g10 = "g0\<lparr>hotCache := ?hot\<rparr>"
  have s1: "remote_fetches g0 w k [a] = Return (?g1, w)"
    by (simp add: a getFromPeer_first g0)
  have s9: "remote_fetches ?g1 w k mid = Return (?g9, w)"
    by (rule remote_fetches_below) (simp_all add: mid wmid)
  have k9: "keys ?g9 k = Some \<lparr>firstGetTime = t1, remoteCnt = 9\<rparr>" by (simp add: mid)
  have fits': "cb = 0 \<or> int (length k) + Len ?view \<le> cb"
    using fits by (simp add: fs z Len_def)
  have pop: "populateHotCache (?g9\<lparr>keys := (keys ?g9)(k \<mapsto> \<lparr>firstGetTime = t1, remoteCnt = 10\<rparr>)\<rparr>) k ?view
      = Return (g0\<lparr>keys := (keys g0)(k \<mapsto> \<lparr>firstGetTime = t1, remoteCnt = 10\<rparr>), hotCache := ?hot\<rparr>)"
    using LRUcache_add_fresh [OF fits'] by (simp add: populateHotCache_def g0 Expire_def)
  have "getFromPeer ?g9 w (peer_ok v10) k t10 =
      Return ((g0\<lparr>keys := (keys g0)(k \<mapsto> \<lparr>firstGetTime = t1, remoteCnt = 10\<rparr>), hotCache := ?hot\<rparr>)
                \<lparr>keys := (keys (g0\<lparr>keys := (keys g0)(k \<mapsto> \<lparr>firstGetTime = t1, remoteCnt = 10\<rparr>),
                                    hotCache := ?hot\<rparr>))(k := None)\<rparr>, w, Inr ?view)"
    by (simp only: getFromPeer_promote [OF k9 wz] pop obind_Return)
  also have "(g0\<lparr>keys := (keys g0)(k \<mapsto> \<lparr>firstGetTime = t1, remoteCnt = 10\<rparr>), hotCache := ?hot\<rparr>)
                \<lparr>keys := (keys (g0\<lparr>keys := (keys g0)(k \<mapsto> \<lparr>firstGetTime = t1, remoteCnt = 10\<rparr>),
                                    hotCache := ?hot\<rparr>))(k := None)\<rparr> = ?g10"
    by (simp add: g0)
  finally have gp: "getFromPeer ?g9 w (peer_ok v10) k t10 = Return (?g10, w, Inr ?view)" .
  have s10: "remote_fetches ?g9 w k [z] = Return (?g10, w)"
    by (simp only: z remote_fetches.simps gp obind_Return split)
  have all: "remote_fetches g0 w k fs = Return (?g10, w)"
    using remote_fetches_append [OF s1, of "mid @ [z]"] remote_fetches_append [OF s9, of "[z]"] s10
    by (simp add: fs)
  have kn: "keys ?g10 k = None" by (simp add: g0)
  have get: "LRUcache_get (hotCache ?g10) k now = (?hot, Some ?view)"
    by (simp add: LRUcache_get_fresh)
  have gcd: "GetCacheData ?g10 w k now =
      Return (?g10, w\<lparr>logs := logs w @ [''[GeeCache] hit hotCache'']\<rparr>, Inr ?view)"
    using k get by (simp add: GetCacheData_def)
  have s11: "remote_fetches ?g10 w k [(v11, t11)] =
      Return (?g10\<lparr>keys := (keys ?g10)(k \<mapsto> \<lparr>firstGetTime = t11, remoteCnt = 1\<rparr>)\<rparr>, w)"
    by (simp add: getFromPeer_first g0)
  have l: "fst (last fs) = v10" by (simp add: fs z)
  have c3: "snd (LRUcache_get (hotCache ?g10) k now) = Some \<lparr>bv_b = fst (last fs), bv_e = 0\<rparr>"
    by (simp add: LRUcache_get_fresh l)
  have c4: "GetCacheData ?g10 w k now =
      Return (?g10, w\<lparr>logs := logs w @ [''[GeeCache] hit hotCache'']\<rparr>,
              Inr \<lparr>bv_b = fst (last fs), bv_e = 0\<rparr>)"
    using gcd by (simp only: l)
  have c5: "\<exists>g'. remote_fetches ?g10 w k [(v11, t11)] = Return (g', w) \<and>
                 keys g' k = Some \<lparr>firstGetTime = t11, remoteCnt = 1\<rparr> \<and>
                 hotCache g' = hotCache ?g10"
    by (intro exI conjI, rule s11) simp_all
  from all kn c3 c4 c5 show ?thesis by blast
qed

lemma replicate_eleven: "replicate 11 x = [x,x,x,x,x,x,x,x,x,x,x]"
  by (simp add: numeral_eq_Suc)

lemma replicate_ten: "replicate 10 x = [x,x,x,x,x,x,x,x,x,x]"
  by (simp add: numeral_eq_Suc)

lemmas group_eval = S6_run_def S6_fetches_def S6_world_def S6_getter_def S6_group_def NewGroup_def
  getFromPeer_def peer_ok_def populateHotCache_def LRUcache_add_def LRUcache_get_def
  maxMinuteRemoteQPS_def round_minutes_def Unix_def Let_def Len_def Expire_def
  signed_divide_int_def Add_def Add_store_def New_def evictLoop_stop Get_def MoveToFront_def
  IsZero_def Before_def int64_def

text \<open>
  Claim C6, as stated, fails: after eleven successful fetches of \<open>"k"\<close> within one minute
  the key is present in \<^verbatim>\<open>keys\<close>, with the count 1 of the eleventh fetch.
\<close>

theorem S6_stats_counterexample:
  "(case S6_run 11 of Return (g, w) \<Rightarrow> keys g ''k'' | Panic p \<Rightarrow> None | Hang \<Rightarrow> None) =
     Some \<lparr>firstGetTime = 1000000000, remoteCnt = 1\<rparr>"
  by (simp add: replicate_eleven group_eval)




theorem hot_promotion_witness:
  "NewGroup Map.empty ''scores'' 2048 (Some S6_getter) = Return (S6_group, [''scores'' \<mapsto> S6_group]) \<and>
   length (S6_fetches 10) = 10 \<and>
   in_window (snd (hd (S6_fetches 10))) (S6_fetches 10) \<and>
   int (length ''k'') + int (s_len (fst (last (S6_fetches 10)))) \<le> 2048 \<and>
   ''k'' \<noteq> [] \<and>
   (\<exists>g. remote_fetches S6_group S6_world ''k'' (S6_fetches 10) = Return (g, S6_world) \<and>
        keys g ''k'' = None \<and>
        snd (LRUcache_get (hotCache g) ''k'' 0) = Some \<lparr>bv_b = \<lparr>s_ptr = 0, s_len = 1\<rparr>, bv_e = 0\<rparr> \<and>
        GetCacheData g S6_world ''k'' 0 =
          Return (g, S6_world\<lparr>logs := logs S6_world @ [''[GeeCache] hit hotCache'']\<rparr>,
                  Inr \<lparr>bv_b = \<lparr>s_ptr = 0, s_len = 1\<rparr>, bv_e = 0\<rparr>) \<and>
        (\<exists>g'. remote_fetches g S6_world ''k'' [(\<lparr>s_ptr = 0, s_len = 1\<rparr>, 2000000000)] =
                 Return (g', S6_world) \<and>
              keys g' ''k'' = Some \<lparr>firstGetTime = 2000000000, remoteCnt = 1\<rparr> \<and>
              hotCache g' = hotCache g))"
proof -
  have 1: "NewGroup Map.empty ''scores'' 2048 (Some S6_getter) = Return (S6_group, [''scores'' \<mapsto> S6_group])"
    by (simp add: NewGroup_def S6_group_def Let_def)
  have 2: "length (S6_fetches 10) = 10" by (simp add: S6_fetches_def)
  have 3: "in_window (snd (hd (S6_fetches 10))) (S6_fetches 10)"
    by (simp add: S6_fetches_def replicate_ten in_window_def)
  have 4: "int (length ''k'') + int (s_len (fst (last (S6_fetches 10)))) \<le> 2048"
    by (simp add: S6_fetches_def)
  have 5: "fst (last (S6_fetches 10)) = \<lparr>s_ptr = 0, s_len = 1\<rparr>" by (simp add: S6_fetches_def)
  from hot_promotion [OF 1 2 3 _ _, of "''k''" S6_world 0 "\<lparr>s_ptr = 0, s_len = 1\<rparr>" 2000000000] 4
  have "\<exists>g. remote_fetches S6_group S6_world ''k'' (S6_fetches 10) = Return (g, S6_world) \<and>
        keys g ''k'' = None \<and>
        snd (LRUcache_get (hotCache g) ''k'' 0) = Some \<lparr>bv_b = \<lparr>s_ptr = 0, s_len = 1\<rparr>, bv_e = 0\<rparr> \<and>
        GetCacheData g S6_world ''k'' 0 =
          Return (g, S6_world\<lparr>logs := logs S6_world @ [''[GeeCache] hit hotCache'']\<rparr>,
                  Inr \<lparr>bv_b = \<lparr>s_ptr = 0, s_len = 1\<rparr>, bv_e = 0\<rparr>) \<and>
        (\<exists>g'. remote_fetches g S6_world ''k'' [(\<lparr>s_ptr = 0, s_len = 1\<rparr>, 2000000000)] =
                 Return (g', S6_world) \<and>
              keys g' ''k'' = Some \<lparr>firstGetTime = 2000000000, remoteCnt = 1\<rparr> \<and>
              hotCache g' = hotCache g)"
    unfolding 5 by simp
  with 1 2 3 4 show ?thesis by simp
qed

subsection \<open>Which bytes the caches hold\<close>

lemma cache_RemoveOldest_le: "cache (RemoveOldest vlen c) \<subseteq>\<^sub>m cache c"
  by (auto simp: RemoveOldest_def removeElement_def map_le_def)

lemma evictLoop_cache_le: "evictLoop vlen c = Some c' \<Longrightarrow> cache c' \<subseteq>\<^sub>m cache c"
proof (induction rule: evictLoop.raw_induct [rotated 1, consumes 1])
  case (1 loop vlen c c')
  show ?case
  proof (cases "maxCapacity c \<noteq> 0 \<and> maxCapacity c < curCapacity c")
    case True
    with 1 have "cache c' \<subseteq>\<^sub>m cache (RemoveOldest vlen c)" by simp
    then show ?thesis using cache_RemoveOldest_le by (rule map_le_trans)
  next
    case False
    with "1"(2) have "c' = c" by (simp split: if_splits)
    then show ?thesis by simp
  qed
qed

lemma Add_lookup:
  assumes "Add vlen c k v ex = Some c'" "cache c' k = Some node"
  shows "val node = v \<and> expire node = ex"
proof -
  from assms(1) have "cache c' \<subseteq>\<^sub>m cache (Add_store vlen c k v ex)"
    unfolding Add_def by (rule evictLoop_cache_le)
  with assms(2) have "cache (Add_store vlen c k v ex) k = Some node"
    by (auto simp: map_le_def dom_def)
  then show ?thesis by (auto simp: Add_store_def Let_def split: option.splits)
qed

lemma LRUcache_add_get:
  assumes "LRUcache_add sh k v = Return sh'" "bv_e v = 0"
  shows "snd (LRUcache_get sh' k now) = None \<or> snd (LRUcache_get sh' k now) = Some v"
proof -
  let ?e = "case lru sh of None \<Rightarrow> New (cacheBytes sh) | Some e \<Rightarrow> e"
  from assms(1) obtain e' where e: "Add Len ?e k v (Expire v) = Some e'" "sh' = sh\<lparr>lru := Some e'\<rparr>"
    by (auto simp: LRUcache_add_def Let_def split: option.splits)
  show ?thesis
  proof (cases "cache e' k")
    case None
    then show ?thesis by (simp add: LRUcache_get_def e Get_def)
  next
    case (Some node)
    from Add_lookup [OF e(1) Some] assms(2) have "val node = v" "expire node = 0"
      by (simp_all add: Expire_def)
    with Some show ?thesis by (simp add: LRUcache_get_def e Get_def IsZero_def)
  qed
qed

lemma copy_exact: "length src = n \<Longrightarrow> copy_bytes (make_bytes n) src = src"
  by (simp add: copy_bytes_def make_bytes_def)

lemma String_fresh:
  assumes "s_ptr s \<noteq> s_ptr (bv_b v)" "slice_set w s i x = Return w'"
  shows "String w' v = String w v"
  using assms by (auto simp: slice_set_def String_def bytes_of_def split: if_splits)

lemma populate_mainCache:
  "populateCache g k v = Return g1 \<Longrightarrow>
   LRUcache_add (mainCache g) k v = Return (mainCache g1) \<and> hotCache g1 = hotCache g"
  by (auto simp: populateCache_def obind_def split: outcome.splits)

lemma populate_hotCache:
  "populateHotCache g k v = Return g1 \<Longrightarrow>
   LRUcache_add (hotCache g) k v = Return (hotCache g1) \<and> mainCache g1 = mainCache g"
  by (auto simp: populateHotCache_def obind_def split: outcome.splits)

lemma getLocally_clones:
  assumes gt: "getter g w k = (w1, Inr b)"
    and gl: "getLocally g w k = Return (g', w', Inr v)"
  shows "bv_b v = \<lparr>s_ptr = length (mem w1), s_len = s_len b\<rparr>"
    and "bv_e v = 0"
    and "mem w' = mem w1 @ [copy_bytes (make_bytes (s_len b)) (bytes_of w1 b)]"
    and "snd (LRUcache_get (mainCache g') k now) = None \<or> snd (LRUcache_get (mainCache g') k now) = Some v"
    and "snd (LRUcache_get (hotCache g') k now) = None \<or> snd (LRUcache_get (hotCache g') k now) = Some v"
proof -
  let ?v = "\<lparr>bv_b = \<lparr>s_ptr = length (mem w1), s_len = s_len b\<rparr>, bv_e = 0\<rparr>"
  let ?w = "w1\<lparr>mem := mem w1 @ [copy_bytes (make_bytes (s_len b)) (bytes_of w1 b)]\<rparr>"
  from gl gt obtain g1 where
    p1: "populateCache g k ?v = Return g1" and p2: "populateHotCache g1 k ?v = Return g'"
    and v: "v = ?v" and w: "w' = ?w"
    by (auto simp: getLocally_def cloneBytes_def Let_def obind_def split: outcome.splits)
  show "bv_b v = \<lparr>s_ptr = length (mem w1), s_len = s_len b\<rparr>" "bv_e v = 0"
    "mem w' = mem w1 @ [copy_bytes (make_bytes (s_len b)) (bytes_of w1 b)]"
    by (simp_all add: v w)
  from populate_mainCache [OF p1] populate_hotCache [OF p2]
  have m: "LRUcache_add (mainCache g) k ?v = Return (mainCache g')"
    and h: "LRUcache_add (hotCache g) k ?v = Return (hotCache g')" by simp_all
  show "snd (LRUcache_get (mainCache g') k now) = None \<or> snd (LRUcache_get (mainCache g') k now) = Some v"
    unfolding v by (rule LRUcache_add_get [OF m]) simp
  show "snd (LRUcache_get (hotCache g') k now) = None \<or> snd (LRUcache_get (hotCache g') k now) = Some v"
    unfolding v by (rule LRUcache_add_get [OF h]) simp
qed

lemma getFromPeer_shares:
  assumes pr: "peer w (name g) k = Return (w1, Inr resValue)"
    and gf: "getFromPeer g w peer k now = Return (g', w', Inr v)"
  shows "v = \<lparr>bv_b = resValue, bv_e = 0\<rparr>" and "w' = w1"
    and "hotCache g' = hotCache g \<or>
         snd (LRUcache_get (hotCache g') k now') = None \<or>
         snd (LRUcache_get (hotCache g') k now') = Some v"
proof -
  let ?v = "\<lparr>bv_b = resValue, bv_e = 0\<rparr>"
  from pr gf show v: "v = ?v" and "w' = w1"
    by (auto simp: getFromPeer_def Let_def obind_def split: option.splits if_splits outcome.splits)
  show "hotCache g' = hotCache g \<or>
         snd (LRUcache_get (hotCache g') k now') = None \<or>
         snd (LRUcache_get (hotCache g') k now') = Some v"
  proof (cases "hotCache g' = hotCache g")
    case True
    then show ?thesis by simp
  next
    case False
    with pr gf obtain g1 g2 where "populateHotCache g1 k ?v = Return g2" "hotCache g1 = hotCache g"
      "hotCache g' = hotCache g2"
      by (auto simp: getFromPeer_def Let_def obind_def split: option.splits if_splits outcome.splits)
    with populate_hotCache [of g1 k ?v g2]
    have "LRUcache_add (hotCache g) k ?v = Return (hotCache g')" by simp
    from LRUcache_add_get [OF this, of now'] show ?thesis by (simp add: v)
  qed
qed

lemma Client_Get_fresh:
  "Client_Get env c w grp k = Return (w1, Inr s) \<Longrightarrow>
   s_ptr s = length (mem w) \<and> length (mem w1) = Suc (length (mem w))"
  by (auto simp: Client_Get_def split: option.splits sum.splits)

text \<open>
  The two paths that store bytes, side by side. When \<^verbatim>\<open>getLocally\<close> succeeds, the view
  it returns, which is the view a later read of the main or of the hot cache finds, refers to
  an array allocated by the call, holding the bytes of the loader's slice; no write through a
  slice that existed before changes what the view reads. When \<^verbatim>\<open>getFromPeer\<close> succeeds,
  the view it returns, and stores in the hot cache when it promotes the key, is the slice
  \<^verbatim>\<open>res.Value\<close> itself, and nothing is allocated. The repository's \<^verbatim>\<open>Client\<close> answers
  with an array allocated by decoding.
\<close>

lemma stored_bytes_paths:
  "(getter g w k = (w1, Inr b) \<and> getLocally g w k = Return (g', w', Inr v) \<longrightarrow>
      bv_b v = \<lparr>s_ptr = length (mem w1), s_len = s_len b\<rparr> \<and>
      mem w' = mem w1 @ [copy_bytes (make_bytes (s_len b)) (bytes_of w1 b)] \<and>
      (snd (LRUcache_get (mainCache g') k now) = None \<or>
       snd (LRUcache_get (mainCache g') k now) = Some v) \<and>
      (snd (LRUcache_get (hotCache g') k now) = None \<or>
       snd (LRUcache_get (hotCache g') k now) = Some v) \<and>
      (\<forall>s i x w''. s_ptr s < length (mem w1) \<and> slice_set w' s i x = Return w'' \<longrightarrow>
         String w'' v = String w' v) \<and>
      (s_ptr b < length (mem w1) \<and> s_len b \<le> length (mem w1 ! s_ptr b) \<longrightarrow>
         String w' v = bytes_of w1 b)) \<and>
   (peer w (name g) k = Return (w1, Inr resValue) \<and>
    getFromPeer g w peer k now = Return (g', w', Inr v) \<longrightarrow>
      v = \<lparr>bv_b = resValue, bv_e = 0\<rparr> \<and> w' = w1 \<and>
      (hotCache g' = hotCache g \<or>
       snd (LRUcache_get (hotCache g') k now) = None \<or>
       snd (LRUcache_get (hotCache g') k now) = Some v)) \<and>
   (Client_Get env c w grp k = Return (w1, Inr s) \<longrightarrow> s_ptr s = length (mem w))"
proof -
  have a: "bv_b v = \<lparr>s_ptr = length (mem w1), s_len = s_len b\<rparr> \<and>
      mem w' = mem w1 @ [copy_bytes (make_bytes (s_len b)) (bytes_of w1 b)] \<and>
      (snd (LRUcache_get (mainCache g') k now) = None \<or>
       snd (LRUcache_get (mainCache g') k now) = Some v) \<and>
      (snd (LRUcache_get (hotCache g') k now) = None \<or>
       snd (LRUcache_get (hotCache g') k now) = Some v) \<and>
      (\<forall>s i x w''. s_ptr s < length (mem w1) \<and> slice_set w' s i x = Return w'' \<longrightarrow>
         String w'' v = String w' v) \<and>
      (s_ptr b < length (mem w1) \<and> s_len b \<le> length (mem w1 ! s_ptr b) \<longrightarrow>
         String w' v = bytes_of w1 b)"
    if gt: "getter g w k = (w1, Inr b)" and gl: "getLocally g w k = Return (g', w', Inr v)"
  proof -
    note c = getLocally_clones [OF gt gl]
    have 5: "String w'' v = String w' v"
      if "s_ptr s < length (mem w1)" "slice_set w' s i x = Return w''" for s i x w''
    proof -
      from that(1) c(1) have "s_ptr s \<noteq> s_ptr (bv_b v)" by simp
      then show ?thesis using that(2) by (rule String_fresh)
    qed
    have 6: "String w' v = bytes_of w1 b"
      if "s_ptr b < length (mem w1)" "s_len b \<le> length (mem w1 ! s_ptr b)"
    proof -
      from that have "length (bytes_of w1 b) = s_len b" by (simp add: bytes_of_def)
      then have "copy_bytes (make_bytes (s_len b)) (bytes_of w1 b) = bytes_of w1 b"
        by (rule copy_exact)
      with c(1,3) \<open>length (bytes_of w1 b) = s_len b\<close> show ?thesis
        by (simp add: String_def bytes_of_def [of w'] nth_append)
    qed
    from c(1) c(3) c(4) [of now] c(5) [of now] 5 6 show ?thesis by blast
  qed
  have b: "v = \<lparr>bv_b = resValue, bv_e = 0\<rparr> \<and> w' = w1 \<and>
      (hotCache g' = hotCache g \<or>
       snd (LRUcache_get (hotCache g') k now) = None \<or>
       snd (LRUcache_get (hotCache g') k now) = Some v)"
    if "peer w (name g) k = Return (w1, Inr resValue)"
      "getFromPeer g w peer k now = Return (g', w', Inr v)"
    using getFromPeer_shares(1,2) [OF that] getFromPeer_shares(3) [OF that, of now] by blast
  have c: "s_ptr s = length (mem w)" if "Client_Get env c w grp k = Return (w1, Inr s)"
    using Client_Get_fresh [OF that] by simp
  from a b c show ?thesis by blast
qed

text \<open>
  Claim C7 at the failing input. A peer answers every fetch of the key \<open>"k"\<close> with a slice
  of an array it keeps (address 0, holding \<open>"v"\<close>); the tenth fetch within the minute
  promotes the key. The claim has the hot cache hold a fresh copy, as \<^verbatim>\<open>getLocally\<close>
  stores one and as the documentation of \<^verbatim>\<open>ByteView\<close>, an immutable view, promises. The
  code stores the peer's slice itself: the cached view reads \<open>"v"\<close>, and after the peer
  writes \<open>"x"\<close> to its array the same cached view reads \<open>"x"\<close>.
\<close>

theorem peer_bytes_aliased:
  "(case S6_run 10 of
      Return (g, w) \<Rightarrow>
        (case snd (LRUcache_get (hotCache g) ''k'' 0) of
           Some v \<Rightarrow>
             (case slice_set w \<lparr>s_ptr = 0, s_len = 1\<rparr> 0 120 of
                Return w' \<Rightarrow> String w v = [118] \<and> String w' v = [120]
              | Panic p \<Rightarrow> False
              | Hang \<Rightarrow> False)
         | None \<Rightarrow> False)
    | Panic p \<Rightarrow> False
    | Hang \<Rightarrow> False)"
  by (simp add: replicate_ten group_eval slice_set_def String_def bytes_of_def)

lemmas clone_eval = shared_group_def shared_group_loaded_def cloned_view_def shared_getter_def
  calm_net_def getLocally_def cloneBytes_def copy_bytes_def make_bytes_def bytes_of_def
  populateCache_def Client_Get_def String_def slice_set_def

lemma stored_bytes_paths_example:
  "getter shared_group S6_world ''k'' = (S6_world, Inr \<lparr>s_ptr = 0, s_len = 1\<rparr>) \<and>
   getLocally shared_group S6_world ''k'' =
     Return (shared_group_loaded, S6_world\<lparr>mem := [[118], [118]]\<rparr>, Inr cloned_view) \<and>
   bv_b cloned_view = \<lparr>s_ptr = length (mem S6_world), s_len = 1\<rparr> \<and>
   snd (LRUcache_get (hotCache shared_group_loaded) ''k'' 0) = Some cloned_view \<and>
   slice_set (S6_world\<lparr>mem := [[118], [118]]\<rparr>) \<lparr>s_ptr = 0, s_len = 1\<rparr> 0 120 =
     Return (S6_world\<lparr>mem := [[120], [118]]\<rparr>) \<and>
   String (S6_world\<lparr>mem := [[120], [118]]\<rparr>) cloned_view = [118] \<and>
   String (S6_world\<lparr>mem := [[118], [118]]\<rparr>) cloned_view = bytes_of S6_world \<lparr>s_ptr = 0, s_len = 1\<rparr> \<and>
   peer_ok \<lparr>s_ptr = 0, s_len = 1\<rparr> S6_world (name S6_group) ''k'' =
     Return (S6_world, Inr \<lparr>s_ptr = 0, s_len = 1\<rparr>) \<and>
   getFromPeer S6_group S6_world (peer_ok \<lparr>s_ptr = 0, s_len = 1\<rparr>) ''k'' 5 =
     Return (S6_group\<lparr>keys := [''k'' \<mapsto> \<lparr>firstGetTime = 5, remoteCnt = 1\<rparr>]\<rparr>, S6_world,
             Inr \<lparr>bv_b = \<lparr>s_ptr = 0, s_len = 1\<rparr>, bv_e = 0\<rparr>) \<and>
   Client_Get calm_net (Some (NewClient ''gocache/a'')) S6_world ''scores'' ''k'' =
     Return (S6_world\<lparr>mem := [[118], [118]]\<rparr>, Inr \<lparr>s_ptr = 1, s_len = 1\<rparr>)"
  using stored_bytes_paths [of shared_group S6_world "''k''" S6_world "\<lparr>s_ptr = 0, s_len = 1\<rparr>"
      shared_group_loaded "S6_world\<lparr>mem := [[118], [118]]\<rparr>" cloned_view 0
      "peer_ok \<lparr>s_ptr = 0, s_len = 1\<rparr>" "\<lparr>s_ptr = 0, s_len = 1\<rparr>" calm_net
      "Some (NewClient ''gocache/a'')" "''scores''" "\<lparr>s_ptr = 1, s_len = 1\<rparr>"]
    stored_bytes_paths [of S6_group S6_world "''k''" S6_world "\<lparr>s_ptr = 0, s_len = 1\<rparr>"
      "S6_group\<lparr>keys := [''k'' \<mapsto> \<lparr>firstGetTime = 5, remoteCnt = 1\<rparr>]\<rparr>" S6_world
      "\<lparr>bv_b = \<lparr>s_ptr = 0, s_len = 1\<rparr>, bv_e = 0\<rparr>" 5
      "peer_ok \<lparr>s_ptr = 0, s_len = 1\<rparr>" "\<lparr>s_ptr = 0, s_len = 1\<rparr>" calm_net
      "Some (NewClient ''gocache/a'')" "''scores''" "\<lparr>s_ptr = 1, s_len = 1\<rparr>"]
  by (simp add: group_eval clone_eval NewClient_def)

subsection \<open>Configuration errors\<close>

lemma config_panic_simps [simp]:
  "\<not> config_panic (Return a)" "\<not> config_panic Hang"
  "\<not> config_panic (Panic ''nil pointer dereference'')"
  by (simp_all add: config_panic_def)

lemma config_panic_obind:
  "\<not> config_panic x \<Longrightarrow> (\<And>a. \<not> config_panic (f a)) \<Longrightarrow> \<not> config_panic (obind x f)"
  by (cases x) (simp_all add: config_panic_def)

lemma config_panic_add: "\<not> config_panic (LRUcache_add c k v)"
  by (simp add: LRUcache_add_def Let_def split: option.splits)

lemma config_panic_populateCache: "\<not> config_panic (populateCache g k v)"
  unfolding populateCache_def by (intro config_panic_obind config_panic_add) simp

lemma config_panic_populateHotCache: "\<not> config_panic (populateHotCache g k v)"
  unfolding populateHotCache_def by (intro config_panic_obind config_panic_add) simp

lemma config_panic_obind2:
  "\<not> config_panic x \<Longrightarrow> (\<And>a b. \<not> config_panic (f a b)) \<Longrightarrow>
   \<not> config_panic (obind x (\<lambda>(a, b). f a b))"
  by (rule config_panic_obind) (simp_all split: prod.splits)

lemma config_panic_obind3:
  "\<not> config_panic x \<Longrightarrow> (\<And>a b c. \<not> config_panic (f a b c)) \<Longrightarrow>
   \<not> config_panic (obind x (\<lambda>(a, b, c). f a b c))"
  by (rule config_panic_obind) (simp_all split: prod.splits)

lemma config_panic_getLocally: "\<not> config_panic (getLocally g w k)"
proof (cases "getter g w k")
  case (Pair w1 r)
  show ?thesis
  proof (cases r)
    case (Inl e)
    with Pair show ?thesis by (simp add: getLocally_def)
  next
    case (Inr b)
    have "\<not> config_panic (obind (populateCache g k v) (\<lambda>g1.
              obind (populateHotCache g1 k v) (\<lambda>g2. Return (g2, w2, Inr v))))" for v w2
      by (intro config_panic_obind config_panic_populateCache config_panic_populateHotCache) simp
    moreover obtain w2 c where "cloneBytes w1 b = (w2, c)" by force
    ultimately show ?thesis using Pair Inr by (simp add: getLocally_def Let_def)
  qed
qed

lemma config_panic_getFromPeer:
  assumes "\<And>w grp k. \<not> config_panic (peer w grp k)"
  shows "\<not> config_panic (getFromPeer g w peer k now)"
  unfolding getFromPeer_def
proof (rule config_panic_obind2 [OF assms])
  fix w1 res
  show "\<not> config_panic
          (case res of
             Inl err \<Rightarrow> Return (g, w1, Inl err)
           | Inr resValue \<Rightarrow>
               (case keys g k of
                  None \<Rightarrow>
                    Return (g\<lparr>keys := (keys g)(k \<mapsto> \<lparr>firstGetTime = now, remoteCnt = 1\<rparr>)\<rparr>, w1,
                            Inr \<lparr>bv_b = resValue, bv_e = 0\<rparr>)
                | Some stat \<Rightarrow>
                    (let stat1 = stat\<lparr>remoteCnt := remoteCnt stat + 1\<rparr>;
                         g1 = g\<lparr>keys := (keys g)(k \<mapsto> stat1)\<rparr>;
                         interval = round_minutes (Unix now - Unix (firstGetTime stat1));
                         qps = remoteCnt stat1 sdiv (max 1 interval)
                     in if qps \<ge> maxMinuteRemoteQPS
                        then obind (populateHotCache g1 k \<lparr>bv_b = resValue, bv_e = 0\<rparr>) (\<lambda>g2.
                             Return (g2\<lparr>keys := (keys g2)(k := None)\<rparr>, w1,
                                     Inr \<lparr>bv_b = resValue, bv_e = 0\<rparr>))
                        else Return (g1, w1, Inr \<lparr>bv_b = resValue, bv_e = 0\<rparr>))))"
  proof (cases res)
    case (Inl e)
    then show ?thesis by simp
  next
    case (Inr resValue)
    have p: "\<not> config_panic (obind (populateHotCache g1 k v) (\<lambda>g2.
              Return (g2\<lparr>keys := (keys g2)(k := None)\<rparr>, w1, Inr v)))" for g1 v
      by (intro config_panic_obind config_panic_populateHotCache) simp
    show ?thesis
      by (cases "keys g k") (simp_all add: Inr Let_def p)
  qed
qed

lemma config_panic_Client_Get: "\<not> config_panic (Client_Get env c w grp k)"
  by (simp add: Client_Get_def split: option.splits sum.splits)

lemma config_panic_PickPeer: "\<not> config_panic (PickPeer s k)"
  by (simp add: PickPeer_def Lock_def Let_def split: option.splits)

lemma Server_PickPeer_result:
  "Server_PickPeer env s k = Return (Some p, ok) \<Longrightarrow> \<exists>c. p = Client_Get env c"
  by (cases "PickPeer s k") (auto simp: Server_PickPeer_def split: if_splits)

lemma config_panic_Server_PickPeer: "\<not> config_panic (Server_PickPeer env s k)"
  unfolding Server_PickPeer_def
  by (intro config_panic_obind config_panic_PickPeer) (simp split: prod.splits)

lemma config_panic_load_fn:
  assumes "peers g = None \<or> peers g = Some (Server_PickPeer env s)"
  shows "\<not> config_panic (load_fn g w k now)"
proof (cases "peers g")
  case None
  then show ?thesis by (simp add: load_fn_def config_panic_getLocally)
next
  case (Some pick)
  with assms have pick: "pick = Server_PickPeer env s" by simp
  have "\<not> config_panic (case peer of
             None \<Rightarrow> Panic ''nil pointer dereference''
           | Some p \<Rightarrow>
               obind (getFromPeer g w p k now) (\<lambda>(g1, w1, res).
                 case res of
                   Inr v \<Rightarrow> Return (g1, w1, Inr v)
                 | Inl err \<Rightarrow>
                     getLocally g1 (w1\<lparr>logs := logs w1 @ [''[GoCache] Failed to get from peer '' @ err]\<rparr>) k))"
    if "pick k = Return (peer, True)" for peer
  proof (cases peer)
    case None
    then show ?thesis by simp
  next
    case (Some p)
    with that pick obtain c where "p = Client_Get env c"
      using Server_PickPeer_result by blast
    then have "\<not> config_panic (getFromPeer g w p k now)"
      by (simp add: config_panic_getFromPeer config_panic_Client_Get)
    then show ?thesis unfolding Some option.case
      by (rule config_panic_obind) (simp add: config_panic_getLocally split: prod.splits sum.splits)
  qed
  note leader = this
  have "\<not> config_panic (obind (pick k) (\<lambda>(peer, ok).
            if ok then
              (case peer of
                 None \<Rightarrow> Panic ''nil pointer dereference''
               | Some p \<Rightarrow>
                   obind (getFromPeer g w p k now) (\<lambda>(g1, w1, res).
                     case res of
                       Inr v \<Rightarrow> Return (g1, w1, Inr v)
                     | Inl err \<Rightarrow>
                         getLocally g1 (w1\<lparr>logs := logs w1 @ [''[GoCache] Failed to get from peer '' @ err]\<rparr>) k))
            else getLocally g w k))"
  proof (cases "pick k")
    case (Return r)
    obtain peer ok where r: "r = (peer, ok)" by (cases r)
    show ?thesis
    proof (cases ok)
      case True
      with leader [of peer] Return r show ?thesis by simp
    next
      case False
      with Return r show ?thesis by (simp add: config_panic_getLocally)
    qed
  next
    case (Panic p)
    with config_panic_Server_PickPeer [of env s k] pick show ?thesis
      by (simp add: config_panic_def)
  next
    case Hang
    then show ?thesis by simp
  qed
  with Some show ?thesis by (simp add: load_fn_def)
qed

lemma config_panic_load:
  assumes "peers g = None \<or> peers g = Some (Server_PickPeer env s)"
  shows "\<not> config_panic (load g w k now)"
proof -
  have "\<not> config_panic (load_fn (g\<lparr>loader := insert k (loader g)\<rparr>) w k now)"
    using assms by (intro config_panic_load_fn [of _ env s]) simp
  then have "\<not> config_panic (obind (load_fn (g\<lparr>loader := insert k (loader g)\<rparr>) w k now)
      (\<lambda>(g1, w1, res). Return (g1\<lparr>loader := loader g1 - {k}\<rparr>, w1, res)))"
    by (rule config_panic_obind3) simp
  then show ?thesis
    by (simp add: load_def)
qed

lemma config_panic_GetCacheData:
  assumes "peers g = None \<or> peers g = Some (Server_PickPeer env s)"
  shows "\<not> config_panic (GetCacheData g w k now)"
proof -
  have "\<not> config_panic (load (g\<lparr>hotCache := hc, mainCache := mc\<rparr>) w k now)" for hc mc
    using assms by (intro config_panic_load [of _ env s]) simp
  then show ?thesis
    by (simp add: GetCacheData_def split: prod.splits option.splits)
qed

text \<open>
  Claim C9, as stated, fails for \<^verbatim>\<open>Start\<close>: on a server that is already running (the
  state in which a first \<^verbatim>\<open>Start\<close> serves), \<^verbatim>\<open>Start\<close> does not abort, it returns
  the error "server already started".
\<close>

theorem Start_counterexample:
  "Start calm_env (NewServer identity_hash ''localhost:9999'') = Return (running_server, None) \<and>
   Start calm_env running_server = Return (running_server, Some ''server already started'') \<and>
   \<not> is_Panic (Start calm_env running_server)"
  by (simp add: Start_def Lock_def Unlock_def running_server_def NewServer_def calm_env_def)

text \<open>
  Claim C9, amended. \<^verbatim>\<open>NewGroup\<close> with a nil loader panics, and so does the second of
  two calls of \<^verbatim>\<open>RegisterPeers\<close> that register a picker on one group: both abort the
  process where the group is set up. A \<^verbatim>\<open>Start\<close> on a server that is already running,
  its mutex free as the \<^verbatim>\<open>Start\<close> that serves leaves it, aborts nothing: it returns the
  error "server already started" to its caller and leaves the server as it is. The read path \<^verbatim>\<open>GetCacheData\<close>, on a group with no picker or
  with a server as its picker, raises neither of the two panics.
\<close>

theorem configuration_errors:
  "NewGroup groups nm cb None = Panic ''nil Getter'' \<and>
   (peers g = None \<longrightarrow>
      RegisterPeers g (Some pick) = Return (g\<lparr>peers := Some pick\<rparr>) \<and>
      RegisterPeers (g\<lparr>peers := Some pick\<rparr>) p = Panic ''RegisterPeerPicker called more than once'') \<and>
   (status s \<and> \<not> mu s \<longrightarrow> Start env s = Return (s, Some ''server already started'')) \<and>
   (peers g = None \<or> peers g = Some (Server_PickPeer nenv srv) \<longrightarrow>
      \<not> config_panic (GetCacheData g w k now))"
  by (simp add: NewGroup_def RegisterPeers_def Start_def Lock_def Unlock_def
      config_panic_GetCacheData [of g nenv srv])

theorem configuration_errors_witness:
  "NewGroup Map.empty ''scores'' 2048 None = (Panic ''nil Getter'' :: (Group \<times> (string \<rightharpoonup> Group)) outcome) \<and>
   peers S6_group = None \<and>
   RegisterPeers S6_group (Some (Server_PickPeer calm_net running_server)) =
     Return (S6_group\<lparr>peers := Some (Server_PickPeer calm_net running_server)\<rparr>) \<and>
   RegisterPeers (S6_group\<lparr>peers := Some (Server_PickPeer calm_net running_server)\<rparr>) None =
     Panic ''RegisterPeerPicker called more than once'' \<and>
   status running_server \<and> \<not> mu running_server \<and>
   Start calm_env running_server = Return (running_server, Some ''server already started'') \<and>
   \<not> config_panic (GetCacheData S6_group S6_world ''k'' 0)"
  using configuration_errors [of Map.empty "''scores''" 2048 S6_group
      "Server_PickPeer calm_net running_server" None running_server calm_env calm_net
      running_server S6_world "''k''" 0]
  by (simp add: S6_group_def running_server_def NewServer_def)


section \<open>Properties of single flight\<close>

lemma sf_inv_init: "sf_inv kf fn sf_init"
  by (simp add: sf_inv_def sf_init_def)

lemma sf_inv_led:
  "sf_inv kf fn s \<Longrightarrow> led (pcs s t) = Some c \<Longrightarrow>
   c < length (calls s) \<and> calls s ! c = call_as (fn t) (pcs s t)"
  unfolding sf_inv_def by blast

lemma sf_inv_unique:
  "sf_inv kf fn s \<Longrightarrow> led (pcs s t) = Some c \<Longrightarrow> led (pcs s t') = Some c \<Longrightarrow> t = t'"
  unfolding sf_inv_def by blast

lemma sf_inv_map:
  "sf_inv kf fn s \<Longrightarrow> in_flight (pcs s t) \<Longrightarrow> led (pcs s t) = Some c \<Longrightarrow> sf_m s (kf t) = Some c"
  unfolding sf_inv_def by blast

lemma sf_inv_owner:
  "sf_inv kf fn s \<Longrightarrow> sf_m s k = Some c \<Longrightarrow>
   \<exists>t. kf t = k \<and> in_flight (pcs s t) \<and> led (pcs s t) = Some c"
  unfolding sf_inv_def by blast

lemma sf_inv_waiting:
  "sf_inv kf fn s \<Longrightarrow> pcs s t = Waiting c \<Longrightarrow> \<exists>tl. led (pcs s tl) = Some c \<and> kf tl = kf t"
  unfolding sf_inv_def by blast

lemma sf_inv_woken:
  "sf_inv kf fn s \<Longrightarrow> pcs s t = Returned None c r \<Longrightarrow>
   (\<exists>tl. led (pcs s tl) = Some c \<and> kf tl = kf t) \<and> finished (calls s ! c) \<and> r = res (calls s ! c)"
  unfolding sf_inv_def by blast

lemma sf_inv_leader_result:
  "sf_inv kf fn s \<Longrightarrow> pcs s t = Returned (Some n) c r \<Longrightarrow> r = Some (fn t n)"
  unfolding sf_inv_def by blast

lemma sf_invI:
  assumes "\<And>t c. led (pcs s t) = Some c \<Longrightarrow> c < length (calls s) \<and> calls s ! c = call_as (fn t) (pcs s t)"
    and "\<And>t t' c. led (pcs s t) = Some c \<Longrightarrow> led (pcs s t') = Some c \<Longrightarrow> t = t'"
    and "\<And>t c. in_flight (pcs s t) \<Longrightarrow> led (pcs s t) = Some c \<Longrightarrow> sf_m s (kf t) = Some c"
    and "\<And>k c. sf_m s k = Some c \<Longrightarrow> \<exists>t. kf t = k \<and> in_flight (pcs s t) \<and> led (pcs s t) = Some c"
    and "\<And>t c. pcs s t = Waiting c \<Longrightarrow> \<exists>tl. led (pcs s tl) = Some c \<and> kf tl = kf t"
    and "\<And>t c r. pcs s t = Returned None c r \<Longrightarrow>
           (\<exists>tl. led (pcs s tl) = Some c \<and> kf tl = kf t) \<and>
           finished (calls s ! c) \<and> r = res (calls s ! c)"
    and "\<And>t n c r. pcs s t = Returned (Some n) c r \<Longrightarrow> r = Some (fn t n)"
  shows "sf_inv kf fn s"
  unfolding sf_inv_def using assms by blast

lemma led_in_flight: "in_flight p \<Longrightarrow> \<exists>c. led p = Some c"
  by (cases p) auto

lemma led_not_Waiting: "led p = Some c \<Longrightarrow> p \<noteq> Waiting c' \<and> p \<noteq> Returned None c' r \<and> p \<noteq> Calling"
  by (cases p) auto

text \<open>A step of a leader along its own call.\<close>

lemma sf_inv_leader_step:
  assumes inv: "sf_inv kf fn s"
    and p: "led (pcs s t) = Some c" and p': "led p' = Some c"
    and fl: "in_flight p' \<Longrightarrow> in_flight (pcs s t)"
    and m': "m' = (if in_flight (pcs s t) \<and> \<not> in_flight p' then (sf_m s)(kf t := None) else sf_m s)"
    and fin: "finished (call_as (fn t) (pcs s t)) \<Longrightarrow> call_as (fn t) p' = call_as (fn t) (pcs s t)"
    and ret: "\<And>n c r. p' = Returned (Some n) c r \<Longrightarrow> r = Some (fn t n)"
  shows "sf_inv kf fn (s\<lparr>calls := (calls s)[c := call_as (fn t) p'], sf_m := m',
                         pcs := (pcs s)(t := p'), runs := x\<rparr>)"
    (is "sf_inv kf fn ?s'")
proof (rule sf_invI)
  note c = sf_inv_led [OF inv p]
  have other: "c' \<noteq> c" if "t' \<noteq> t" "led (pcs s t') = Some c'" for t' c'
    using sf_inv_unique [OF inv that(2), of t] p that(1) by auto
  show "c' < length (calls ?s') \<and> calls ?s' ! c' = call_as (fn t') (pcs ?s' t')"
    if "led (pcs ?s' t') = Some c'" for t' c'
  proof (cases "t' = t")
    case True
    with that p' c show ?thesis by simp
  next
    case False
    with that have l: "led (pcs s t') = Some c'" by simp
    with other [OF False] sf_inv_led [OF inv l] False show ?thesis by simp
  qed
  show "t1 = t2" if "led (pcs ?s' t1) = Some c'" "led (pcs ?s' t2) = Some c'" for t1 t2 c'
  proof -
    have 1: "led (pcs s t1) = Some c'" using that(1) p p' by (cases "t1 = t") simp_all
    have 2: "led (pcs s t2) = Some c'" using that(2) p p' by (cases "t2 = t") simp_all
    from sf_inv_unique [OF inv 1 2] show ?thesis .
  qed
  show "sf_m ?s' (kf t') = Some c'" if "in_flight (pcs ?s' t')" "led (pcs ?s' t') = Some c'" for t' c'
  proof (cases "t' = t")
    case True
    with that p' have "in_flight p'" "c' = c" by simp_all
    with fl sf_inv_map [OF inv _ p] m' True show ?thesis by simp
  next
    case False
    with that have f: "in_flight (pcs s t')" and l: "led (pcs s t') = Some c'" by simp_all
    have old: "sf_m s (kf t') = Some c'" using inv f l by (rule sf_inv_map)
    show ?thesis
    proof (cases "in_flight (pcs s t) \<and> \<not> in_flight p'")
      case True
      then have "sf_m s (kf t) = Some c" using sf_inv_map [OF inv _ p] by simp
      with old other [OF False l] have "kf t' \<noteq> kf t" by auto
      with True old m' show ?thesis by simp
    next
      case False
      with old m' show ?thesis by auto
    qed
  qed
  show "\<exists>t'. kf t' = k \<and> in_flight (pcs ?s' t') \<and> led (pcs ?s' t') = Some c'"
    if "sf_m ?s' k = Some c'" for k c'
  proof -
    from that m' have old: "sf_m s k = Some c'" by (auto split: if_splits)
    from sf_inv_owner [OF inv old] obtain t0 where
      t0: "kf t0 = k" "in_flight (pcs s t0)" "led (pcs s t0) = Some c'" by blast
    show ?thesis
    proof (cases "t0 = t")
      case False
      with t0 show ?thesis by (intro exI [of _ t0]) simp
    next
      case True
      with t0 p have cc: "c' = c" and k: "k = kf t" and f: "in_flight (pcs s t)" by simp_all
      have "in_flight p'"
      proof (rule ccontr)
        assume "\<not> in_flight p'"
        with f m' have "sf_m ?s' (kf t) = None" by simp
        with that k show False by simp
      qed
      with p' cc k show ?thesis by (intro exI [of _ t]) simp
    qed
  qed
  have keep: "led (pcs ?s' tl) = led (pcs s tl)" for tl
    using p p' by simp
  show "\<exists>tl. led (pcs ?s' tl) = Some c' \<and> kf tl = kf t'" if "pcs ?s' t' = Waiting c'" for t' c'
  proof -
    from that p' have "t' \<noteq> t" using led_not_Waiting [OF p'] by auto
    with that have "pcs s t' = Waiting c'" by simp
    from sf_inv_waiting [OF inv this] show ?thesis unfolding keep .
  qed
  show "(\<exists>tl. led (pcs ?s' tl) = Some c' \<and> kf tl = kf t') \<and>
        finished (calls ?s' ! c') \<and> r = res (calls ?s' ! c')"
    if "pcs ?s' t' = Returned None c' r" for t' c' r
  proof -
    from that p' have "t' \<noteq> t" using led_not_Waiting [OF p'] by auto
    with that have "pcs s t' = Returned None c' r" by simp
    from sf_inv_woken [OF inv this] have l: "\<exists>tl. led (pcs s tl) = Some c' \<and> kf tl = kf t'"
      and w: "finished (calls s ! c')" "r = res (calls s ! c')" by simp_all
    have "finished (calls ?s' ! c') \<and> r = res (calls ?s' ! c')"
    proof (cases "c' = c")
      case False
      with w show ?thesis by simp
    next
      case True
      with w(1) c have "finished (call_as (fn t) (pcs s t))" by simp
      from fin [OF this] c True w show ?thesis by simp
    qed
    with l show ?thesis unfolding keep by simp
  qed
  show "r = Some (fn t' n)" if "pcs ?s' t' = Returned (Some n) c' r" for t' n c' r
  proof (cases "t' = t")
    case True
    with that have "p' = Returned (Some n) c' r" by simp
    from ret [OF this] True show ?thesis by simp
  next
    case False
    with that have "pcs s t' = Returned (Some n) c' r" by simp
    from sf_inv_leader_result [OF inv this] show ?thesis .
  qed
qed

text \<open>A step of a caller that leads no call, before and after.\<close>

lemma sf_inv_follower_step:
  assumes inv: "sf_inv kf fn s"
    and p: "led (pcs s t) = None" "\<not> in_flight (pcs s t)"
    and p': "led p' = None" "\<not> in_flight p'"
    and wait: "\<And>c. p' = Waiting c \<Longrightarrow> \<exists>tl. led (pcs s tl) = Some c \<and> kf tl = kf t"
    and woken: "\<And>c r. p' = Returned None c r \<Longrightarrow>
       (\<exists>tl. led (pcs s tl) = Some c \<and> kf tl = kf t) \<and> finished (calls s ! c) \<and> r = res (calls s ! c)"
  shows "sf_inv kf fn (s\<lparr>pcs := (pcs s)(t := p')\<rparr>)" (is "sf_inv kf fn ?s'")
proof (rule sf_invI)
  have keep: "led (pcs ?s' tl) = led (pcs s tl)" "in_flight (pcs ?s' tl) = in_flight (pcs s tl)" for tl
    using p p' by simp_all
  have same: "pcs ?s' t' = pcs s t'" if "led (pcs ?s' t') = Some c'" for t' c'
    using that p' by (cases "t' = t") simp_all
  show "c' < length (calls ?s') \<and> calls ?s' ! c' = call_as (fn t') (pcs ?s' t')"
    if "led (pcs ?s' t') = Some c'" for t' c'
    using sf_inv_led [OF inv, of t' c'] that same [OF that] by simp
  show "t1 = t2" if "led (pcs ?s' t1) = Some c'" "led (pcs ?s' t2) = Some c'" for t1 t2 c'
    using sf_inv_unique [OF inv, of t1 c' t2] that unfolding keep by simp
  show "sf_m ?s' (kf t') = Some c'" if "in_flight (pcs ?s' t')" "led (pcs ?s' t') = Some c'" for t' c'
    using sf_inv_map [OF inv, of t' c'] that unfolding keep by simp
  show "\<exists>t'. kf t' = k \<and> in_flight (pcs ?s' t') \<and> led (pcs ?s' t') = Some c'"
    if "sf_m ?s' k = Some c'" for k c'
    using sf_inv_owner [OF inv, of k c'] that unfolding keep by simp
  show "\<exists>tl. led (pcs ?s' tl) = Some c' \<and> kf tl = kf t'" if "pcs ?s' t' = Waiting c'" for t' c'
  proof (cases "t' = t")
    case True
    with that wait [of c'] show ?thesis unfolding keep by simp
  next
    case False
    with that sf_inv_waiting [OF inv, of t' c'] show ?thesis unfolding keep by simp
  qed
  show "(\<exists>tl. led (pcs ?s' tl) = Some c' \<and> kf tl = kf t') \<and>
        finished (calls ?s' ! c') \<and> r = res (calls ?s' ! c')"
    if "pcs ?s' t' = Returned None c' r" for t' c' r
  proof (cases "t' = t")
    case True
    with that woken [of c' r] show ?thesis unfolding keep by simp
  next
    case False
    with that sf_inv_woken [OF inv, of t' c' r] show ?thesis unfolding keep by simp
  qed
  show "r = Some (fn t' n)" if "pcs ?s' t' = Returned (Some n) c' r" for t' n c' r
  proof -
    have "led (pcs ?s' t') = Some c'" using that by simp
    from same [OF this] that sf_inv_leader_result [OF inv, of t' n c' r] show ?thesis by simp
  qed
qed

text \<open>The step that installs a new call.\<close>

lemma sf_inv_install:
  assumes inv: "sf_inv kf fn s"
    and p: "pcs s t = Calling" and free: "sf_m s (kf t) = None"
  shows "sf_inv kf fn (s\<lparr>calls := calls s @ [\<lparr>finished = False, res = None\<rparr>],
                         sf_m := (sf_m s)(kf t \<mapsto> length (calls s)),
                         pcs := (pcs s)(t := Installed (length (calls s)))\<rparr>)"
    (is "sf_inv kf fn ?s'")
proof (rule sf_invI)
  have old: "led (pcs s t') = Some c'" if "led (pcs ?s' t') = Some c'" "t' \<noteq> t" for t' c'
    using that by simp
  have mono: "led (pcs ?s' tl) = Some c'" if "led (pcs s tl) = Some c'" for tl c'
    using that p by (cases "tl = t") simp_all
  show "c' < length (calls ?s') \<and> calls ?s' ! c' = call_as (fn t') (pcs ?s' t')"
    if "led (pcs ?s' t') = Some c'" for t' c'
  proof (cases "t' = t")
    case True
    with that have "c' = length (calls s)" by simp
    with True show ?thesis by simp
  next
    case False
    from sf_inv_led [OF inv old [OF that False]] False show ?thesis by (simp add: nth_append)
  qed
  show "t1 = t2" if "led (pcs ?s' t1) = Some c'" "led (pcs ?s' t2) = Some c'" for t1 t2 c'
  proof (cases "t1 = t")
    case True
    with that(1) have c: "c' = length (calls s)" by simp
    show ?thesis
    proof (rule ccontr)
      assume "t1 \<noteq> t2"
      with True have "t2 \<noteq> t" by simp
      from sf_inv_led [OF inv old [OF that(2) this]] c show False by simp
    qed
  next
    case False
    note f1 = this
    show ?thesis
    proof (cases "t2 = t")
      case True
      with that(2) have c: "c' = length (calls s)" by simp
      from sf_inv_led [OF inv old [OF that(1) f1]] c show ?thesis by simp
    next
      case False
      from sf_inv_unique [OF inv old [OF that(1) f1] old [OF that(2) False]] show ?thesis .
    qed
  qed
  show "sf_m ?s' (kf t') = Some c'" if "in_flight (pcs ?s' t')" "led (pcs ?s' t') = Some c'" for t' c'
  proof (cases "t' = t")
    case True
    with that show ?thesis by simp
  next
    case False
    with that have "in_flight (pcs s t')" "led (pcs s t') = Some c'" by simp_all
    from sf_inv_map [OF inv this] free show ?thesis by auto
  qed
  show "\<exists>t'. kf t' = k \<and> in_flight (pcs ?s' t') \<and> led (pcs ?s' t') = Some c'"
    if "sf_m ?s' k = Some c'" for k c'
  proof (cases "k = kf t")
    case True
    with that show ?thesis by (intro exI [of _ t]) simp
  next
    case False
    with that have "sf_m s k = Some c'" by simp
    from sf_inv_owner [OF inv this] obtain t0 where
      t0: "kf t0 = k" "in_flight (pcs s t0)" "led (pcs s t0) = Some c'" by blast
    with False have "t0 \<noteq> t" by auto
    with t0 show ?thesis by (intro exI [of _ t0]) simp
  qed
  show "\<exists>tl. led (pcs ?s' tl) = Some c' \<and> kf tl = kf t'" if "pcs ?s' t' = Waiting c'" for t' c'
  proof -
    from that have "t' \<noteq> t" by auto
    with that have "pcs s t' = Waiting c'" by simp
    from sf_inv_waiting [OF inv this] obtain tl where
      tl: "led (pcs s tl) = Some c'" "kf tl = kf t'" by blast
    from tl(1) p have "tl \<noteq> t" by auto
    with tl show ?thesis by (intro exI [of _ tl]) simp
  qed
  show "(\<exists>tl. led (pcs ?s' tl) = Some c' \<and> kf tl = kf t') \<and>
        finished (calls ?s' ! c') \<and> r = res (calls ?s' ! c')"
    if "pcs ?s' t' = Returned None c' r" for t' c' r
  proof -
    from that have "t' \<noteq> t" by auto
    with that have "pcs s t' = Returned None c' r" by simp
    from sf_inv_woken [OF inv this] obtain tl where
      tl: "led (pcs s tl) = Some c'" "kf tl = kf t'" and w: "finished (calls s ! c')" "r = res (calls s ! c')"
      by blast
    from sf_inv_led [OF inv tl(1)] have lt: "c' < length (calls s)" by simp
    from tl(1) p have "tl \<noteq> t" by auto
    with tl have "\<exists>tl. led (pcs ?s' tl) = Some c' \<and> kf tl = kf t'"
      by (intro exI [of _ tl]) simp
    moreover have "finished (calls ?s' ! c') \<and> r = res (calls ?s' ! c')"
      using w lt by (simp add: nth_append)
    ultimately show ?thesis by blast
  qed
  show "r = Some (fn t' n)" if "pcs ?s' t' = Returned (Some n) c' r" for t' n c' r
  proof -
    from that have "t' \<noteq> t" by auto
    with that have "pcs s t' = Returned (Some n) c' r" by simp
    from sf_inv_leader_result [OF inv this] show ?thesis .
  qed
qed

lemma sf_inv_step:
  assumes inv: "sf_inv kf fn s" and st: "sf_step kf fn s t = Some s'"
  shows "sf_inv kf fn s'"
proof (cases "pcs s t")
  case Calling
  show ?thesis
  proof (cases "sf_m s (kf t)")
    case None
    with Calling st have "s' = s\<lparr>calls := calls s @ [\<lparr>finished = False, res = None\<rparr>],
                         sf_m := (sf_m s)(kf t \<mapsto> length (calls s)),
                         pcs := (pcs s)(t := Installed (length (calls s)))\<rparr>"
      by (simp add: sf_step_def)
    with sf_inv_install [OF inv Calling None] show ?thesis by simp
  next
    case (Some c)
    with Calling st have s': "s' = s\<lparr>pcs := (pcs s)(t := Waiting c)\<rparr>"
      by (simp add: sf_step_def)
    from sf_inv_owner [OF inv Some] obtain tl where "led (pcs s tl) = Some c" "kf tl = kf t"
      by blast
    then have "sf_inv kf fn (s\<lparr>pcs := (pcs s)(t := Waiting c)\<rparr>)"
      using Calling by (intro sf_inv_follower_step [OF inv]) auto
    with s' show ?thesis by simp
  qed
next
  case (Waiting c)
  with st have f: "finished (calls s ! c)"
    and s': "s' = s\<lparr>pcs := (pcs s)(t := Returned None c (res (calls s ! c)))\<rparr>"
    by (simp_all add: sf_step_def split: if_splits)
  from sf_inv_waiting [OF inv Waiting] f
  have "sf_inv kf fn (s\<lparr>pcs := (pcs s)(t := Returned None c (res (calls s ! c)))\<rparr>)"
    using Waiting by (intro sf_inv_follower_step [OF inv]) auto
  with s' show ?thesis by simp
next
  case (Installed c)
  then have l: "led (pcs s t) = Some c" by simp
  from sf_inv_led [OF inv l] Installed have c: "calls s ! c = \<lparr>finished = False, res = None\<rparr>" by simp
  have "sf_inv kf fn (s\<lparr>calls := (calls s)[c := call_as (fn t) (InFn c (runs s))], sf_m := sf_m s,
                         pcs := (pcs s)(t := InFn c (runs s)), runs := runs s + 1\<rparr>)"
    using Installed by (intro sf_inv_leader_step [OF inv l]) simp_all
  moreover have "(calls s)[c := \<lparr>finished = False, res = None\<rparr>] = calls s"
    using c by (metis list_update_id)
  moreover from st Installed
  have "s' = s\<lparr>pcs := (pcs s)(t := InFn c (runs s)), runs := runs s + 1\<rparr>"
    by (simp add: sf_step_def)
  ultimately show ?thesis by simp
next
  case (InFn c n)
  then have l: "led (pcs s t) = Some c" by simp
  from sf_inv_led [OF inv l] InFn have c: "calls s ! c = \<lparr>finished = False, res = None\<rparr>" by simp
  have "sf_inv kf fn (s\<lparr>calls := (calls s)[c := call_as (fn t) (Stored c n)], sf_m := sf_m s,
                         pcs := (pcs s)(t := Stored c n), runs := runs s\<rparr>)"
    using InFn by (intro sf_inv_leader_step [OF inv l]) simp_all
  moreover from st InFn c
  have "s' = s\<lparr>calls := (calls s)[c := \<lparr>finished = False, res = Some (fn t n)\<rparr>],
               pcs := (pcs s)(t := Stored c n)\<rparr>"
    by (simp add: sf_step_def)
  ultimately show ?thesis by simp
next
  case (Stored c n)
  then have l: "led (pcs s t) = Some c" by simp
  from sf_inv_led [OF inv l] Stored have c: "calls s ! c = \<lparr>finished = False, res = Some (fn t n)\<rparr>" by simp
  have "sf_inv kf fn (s\<lparr>calls := (calls s)[c := call_as (fn t) (Released c n)], sf_m := sf_m s,
                         pcs := (pcs s)(t := Released c n), runs := runs s\<rparr>)"
    using Stored by (intro sf_inv_leader_step [OF inv l]) simp_all
  moreover from st Stored c
  have "s' = s\<lparr>calls := (calls s)[c := \<lparr>finished = True, res = Some (fn t n)\<rparr>],
               pcs := (pcs s)(t := Released c n)\<rparr>"
    by (simp add: sf_step_def)
  ultimately show ?thesis by simp
next
  case (Released c n)
  then have l: "led (pcs s t) = Some c" by simp
  from sf_inv_led [OF inv l] Released have c: "calls s ! c = \<lparr>finished = True, res = Some (fn t n)\<rparr>" by simp
  have "sf_inv kf fn (s\<lparr>calls := (calls s)[c := call_as (fn t) (Deleted c n)],
                         sf_m := (sf_m s)(kf t := None),
                         pcs := (pcs s)(t := Deleted c n), runs := runs s\<rparr>)"
    using Released by (intro sf_inv_leader_step [OF inv l]) simp_all
  moreover have "(calls s)[c := \<lparr>finished = True, res = Some (fn t n)\<rparr>] = calls s"
    using c by (metis list_update_id)
  moreover from st Released
  have "s' = s\<lparr>sf_m := (sf_m s)(kf t := None), pcs := (pcs s)(t := Deleted c n)\<rparr>"
    by (simp add: sf_step_def)
  ultimately show ?thesis by simp
next
  case (Deleted c n)
  then have l: "led (pcs s t) = Some c" by simp
  from sf_inv_led [OF inv l] Deleted have c: "calls s ! c = \<lparr>finished = True, res = Some (fn t n)\<rparr>" by simp
  have "sf_inv kf fn (s\<lparr>calls := (calls s)[c := call_as (fn t) (Returned (Some n) c (Some (fn t n)))],
                         sf_m := sf_m s,
                         pcs := (pcs s)(t := Returned (Some n) c (Some (fn t n))), runs := runs s\<rparr>)"
    using Deleted by (intro sf_inv_leader_step [OF inv l]) simp_all
  moreover have "(calls s)[c := \<lparr>finished = True, res = Some (fn t n)\<rparr>] = calls s"
    using c by (metis list_update_id)
  moreover from st Deleted c
  have "s' = s\<lparr>pcs := (pcs s)(t := Returned (Some n) c (Some (fn t n)))\<rparr>"
    by (simp add: sf_step_def)
  ultimately show ?thesis by simp
next
  case (Returned role c r)
  with st show ?thesis by (simp add: sf_step_def)
qed

lemma sf_inv_run: "sf_inv kf fn s \<Longrightarrow> sf_inv kf fn (sf_run kf fn s sched)"
proof (induction sched arbitrary: s)
  case Nil
  then show ?case by simp
next
  case (Cons t sched)
  show ?case
  proof (cases "sf_step kf fn s t")
    case None
    with Cons show ?thesis by simp
  next
    case (Some s')
    with Cons.prems have "sf_inv kf fn s'" by (rule_tac sf_inv_step)
    with Cons.IH Some show ?thesis by simp
  qed
qed

lemma sf_reachable_inv: "sf_inv kf fn (sf_run kf fn sf_init sched)"
  by (rule sf_inv_run [OF sf_inv_init])

lemma finished_leader:
  "led p = Some c \<Longrightarrow> finished (call_as f p) \<Longrightarrow>
   \<exists>n. exec_no p = Some n \<and> res (call_as f p) = Some (f n)"
  by (cases p rule: led.cases) auto

lemma unfinished_leader:
  "led p = Some c \<Longrightarrow> \<not> finished (call_as f p) \<Longrightarrow>
   (\<exists>c. p = Installed c) \<or> (\<exists>c n. p = InFn c n) \<or> (\<exists>c n. p = Stored c n)"
  by (cases p rule: led.cases) auto

lemma sf_returned_result:
  assumes inv: "sf_inv kf fn s" and r: "pcs s t = Returned role c r"
  shows "\<exists>tl n. led (pcs s tl) = Some c \<and> exec_no (pcs s tl) = Some n \<and> kf tl = kf t \<and>
           r = Some (fn tl n)"
proof (cases role)
  case (Some n)
  with r sf_inv_leader_result [OF inv, of t n c r] show ?thesis
    by (intro exI [of _ t] exI [of _ n]) simp
next
  case None
  with r sf_inv_woken [OF inv, of t c r] obtain tl where
    tl: "led (pcs s tl) = Some c" "kf tl = kf t" and f: "finished (calls s ! c)" "r = res (calls s ! c)"
    by blast
  from sf_inv_led [OF inv tl(1)] have c: "calls s ! c = call_as (fn tl) (pcs s tl)" by simp
  with f(1) finished_leader [OF tl(1), of "fn tl"] obtain n where
    "exec_no (pcs s tl) = Some n" "res (call_as (fn tl) (pcs s tl)) = Some (fn tl n)" by auto
  with tl c f(2) show ?thesis by (intro exI [of _ tl] exI [of _ n]) simp
qed

lemma sf_one_running:
  assumes inv: "sf_inv kf fn s"
    and "pcs s t = InFn c n" "pcs s t' = InFn c' n'" "kf t = kf t'"
  shows "t = t'"
proof -
  from assms have "sf_m s (kf t) = Some c" "sf_m s (kf t) = Some c'"
    using sf_inv_map [OF inv, of t c] sf_inv_map [OF inv, of t' c'] by simp_all
  then have "c = c'" by simp
  with assms show ?thesis using sf_inv_unique [OF inv, of t c t'] by simp
qed

lemma sf_same_result:
  assumes inv: "sf_inv kf fn s"
    and a: "pcs s t = Returned role c r" and b: "pcs s t' = Returned role' c r'"
  shows "r = r'"
proof -
  from sf_returned_result [OF inv a] obtain tl n where
    1: "led (pcs s tl) = Some c" "exec_no (pcs s tl) = Some n" "r = Some (fn tl n)" by blast
  from sf_returned_result [OF inv b] obtain tl' n' where
    2: "led (pcs s tl') = Some c" "exec_no (pcs s tl') = Some n'" "r' = Some (fn tl' n')" by blast
  from sf_inv_unique [OF inv 1(1) 2(1)] have "tl = tl'" .
  with 1 2 show ?thesis by simp
qed

lemma sf_progress:
  assumes inv: "sf_inv kf fn s" and nr: "\<not> is_Returned (pcs s t)"
  shows "sf_step kf fn s t \<noteq> None \<or>
         (\<exists>c tl. pcs s t = Waiting c \<and> led (pcs s tl) = Some c \<and> sf_step kf fn s tl \<noteq> None)"
proof (cases "pcs s t")
  case (Waiting c)
  show ?thesis
  proof (cases "finished (calls s ! c)")
    case True
    with Waiting show ?thesis by (simp add: sf_step_def)
  next
    case False
    from sf_inv_waiting [OF inv Waiting] obtain tl where tl: "led (pcs s tl) = Some c" by blast
    from sf_inv_led [OF inv tl] False have "\<not> finished (call_as (fn tl) (pcs s tl))" by simp
    from unfinished_leader [OF tl this] have "sf_step kf fn s tl \<noteq> None"
      by (auto simp: sf_step_def)
    with Waiting tl show ?thesis by blast
  qed
qed (use nr in \<open>auto simp: sf_step_def split: option.splits\<close>)

subsection \<open>Every caller returns\<close>

lemma sf_step_local:
  assumes "sf_step kf fn s t = Some s'"
  shows "(\<forall>t'. t' \<noteq> t \<longrightarrow> pcs s' t' = pcs s t') \<and> remaining (pcs s' t) < remaining (pcs s t)"
  using assms by (cases "pcs s t") (auto simp: sf_step_def split: option.splits if_splits)

lemma work_step:
  assumes st: "sf_step kf fn s t = Some s'" and t: "t < N"
  shows "work N s' < work N s"
proof -
  from sf_step_local [OF st] have same: "\<And>t'. t' \<noteq> t \<Longrightarrow> pcs s' t' = pcs s t'"
    and less: "remaining (pcs s' t) < remaining (pcs s t)" by simp_all
  have "work N s' = remaining (pcs s' t) + (\<Sum>t' \<in> {..<N} - {t}. remaining (pcs s' t'))"
    unfolding work_def using t by (intro sum.remove) simp_all
  also have "(\<Sum>t' \<in> {..<N} - {t}. remaining (pcs s' t')) = (\<Sum>t' \<in> {..<N} - {t}. remaining (pcs s t'))"
    by (intro sum.cong) (simp_all add: same)
  also have "remaining (pcs s' t) + \<dots> < remaining (pcs s t) + \<dots>" using less by simp
  also have "\<dots> = work N s"
    unfolding work_def using t by (intro sum.remove [symmetric]) simp_all
  finally show ?thesis .
qed

lemma work_zero:
  assumes "work N s = 0" "t < N"
  shows "is_Returned (pcs s t)"
proof -
  from assms have "remaining (pcs s t) = 0" by (simp add: work_def)
  then show ?thesis by (cases "pcs s t") simp_all
qed

lemma work_bound: "work N s \<le> 6 * N"
proof -
  have "remaining p \<le> 6" for p :: "'a pc" by (cases p) simp_all
  then have "work N s \<le> (\<Sum>t < N. 6)" unfolding work_def by (intro sum_mono) simp
  then show ?thesis by simp
qed

lemma idle_step: "idle_beyond N s \<Longrightarrow> sf_step kf fn s t = Some s' \<Longrightarrow> t < N \<Longrightarrow> idle_beyond N s'"
  using sf_step_local [of kf fn s t s'] by (auto simp: idle_beyond_def)

lemma idle_run: "idle_beyond N s \<Longrightarrow> set sched \<subseteq> {..<N} \<Longrightarrow> idle_beyond N (sf_run kf fn s sched)"
proof (induction sched arbitrary: s)
  case Nil
  then show ?case by simp
next
  case (Cons t sched)
  show ?case
  proof (cases "sf_step kf fn s t")
    case None
    with Cons show ?thesis by simp
  next
    case (Some s')
    with Cons.prems have "idle_beyond N s'" by (intro idle_step [of N s kf fn t s']) simp_all
    with Cons Some show ?thesis by simp
  qed
qed

lemma find_enabled:
  assumes inv: "sf_inv kf fn s" and idle: "idle_beyond N s"
    and t: "t < N" "\<not> is_Returned (pcs s t)"
  shows "\<exists>u. find (\<lambda>t. sf_step kf fn s t \<noteq> None) [0 ..< N] = Some u"
proof -
  from sf_progress [OF inv t(2)] consider "sf_step kf fn s t \<noteq> None"
    | c tl where "led (pcs s tl) = Some c" "sf_step kf fn s tl \<noteq> None" by blast
  then obtain u where u: "u < N" "sf_step kf fn s u \<noteq> None"
  proof cases
    case 1
    with t(1) that show ?thesis by blast
  next
    case 2
    have "tl < N"
    proof (rule ccontr)
      assume "\<not> tl < N"
      with idle have "pcs s tl = Calling" by (simp add: idle_beyond_def)
      with 2(1) show False by simp
    qed
    with 2(2) that show ?thesis by blast
  qed
  then have "\<exists>x \<in> set [0 ..< N]. sf_step kf fn s x \<noteq> None" by auto
  then show ?thesis by (cases "find (\<lambda>t. sf_step kf fn s t \<noteq> None) [0 ..< N]") (auto simp: find_None_iff)
qed

lemma sf_drain_returns:
  assumes "sf_inv kf fn s" "idle_beyond N s" "work N s \<le> fuel"
  shows "\<forall>t < N. is_Returned (pcs (sf_drain kf fn N fuel s) t)"
  using assms
proof (induction fuel arbitrary: s)
  case 0
  then show ?case by (auto intro: work_zero)
next
  case (Suc fuel)
  show ?case
  proof (cases "find (\<lambda>t. sf_step kf fn s t \<noteq> None) [0 ..< N]")
    case None
    have "is_Returned (pcs s t)" if "t < N" for t
      using find_enabled [OF Suc.prems(1,2) that] None by auto
    with None show ?thesis by simp
  next
    case (Some u)
    then have u: "u < N" "sf_step kf fn s u \<noteq> None"
      by (auto simp: find_Some_iff)
    then obtain s' where s': "sf_step kf fn s u = Some s'" by auto
    have "sf_inv kf fn s'" using Suc.prems(1) s' by (rule sf_inv_step)
    moreover have "idle_beyond N s'" using Suc.prems(2) s' u(1) by (rule idle_step)
    moreover have "work N s' \<le> fuel" using work_step [OF s' u(1)] Suc.prems(3) by simp
    ultimately have "\<forall>t < N. is_Returned (pcs (sf_drain kf fn N fuel s') t)" by (rule Suc.IH)
    with Some s' show ?thesis by simp
  qed
qed

lemma sf_all_return:
  assumes "set sched \<subseteq> {..<N}"
  shows "\<forall>t < N. is_Returned (pcs (sf_drain kf fn N (6 * N) (sf_run kf fn sf_init sched)) t)"
proof (rule sf_drain_returns)
  show "sf_inv kf fn (sf_run kf fn sf_init sched)" by (rule sf_reachable_inv)
  have "idle_beyond N (sf_init :: 'a flight)" by (simp add: idle_beyond_def sf_init_def)
  then show "idle_beyond N (sf_run kf fn sf_init sched)" using assms by (rule idle_run)
  show "work N (sf_run kf fn sf_init sched) \<le> 6 * N" by (rule work_bound)
qed


subsection \<open>The record of a key, and the callers that find it\<close>

lemma sf_map_iff:
  assumes inv: "sf_inv kf fn s"
  shows "(sf_m s k \<noteq> None) = (\<exists>t. kf t = k \<and> in_flight (pcs s t))"
proof
  assume "sf_m s k \<noteq> None"
  then obtain c where "sf_m s k = Some c" by auto
  from sf_inv_owner [OF inv this] show "\<exists>t. kf t = k \<and> in_flight (pcs s t)" by blast
next
  assume "\<exists>t. kf t = k \<and> in_flight (pcs s t)"
  then obtain t where t: "kf t = k" "in_flight (pcs s t)" by blast
  from led_in_flight [OF t(2)] obtain c where "led (pcs s t) = Some c" by blast
  from sf_inv_map [OF inv t(2) this] t(1) show "sf_m s k \<noteq> None" by simp
qed

lemma sf_removed:
  assumes inv: "sf_inv kf fn s" and l: "led (pcs s t) = Some c" and nf: "\<not> in_flight (pcs s t)"
  shows "sf_m s (kf t) \<noteq> Some c"
proof
  assume "sf_m s (kf t) = Some c"
  from sf_inv_owner [OF inv this] obtain t0 where
    t0: "in_flight (pcs s t0)" "led (pcs s t0) = Some c" by blast
  from sf_inv_unique [OF inv t0(2) l] t0(1) nf show False by simp
qed

lemma sf_alone:
  assumes "pcs s t = Calling" "sf_m s (kf t) = None"
  shows "pcs (sf_run kf fn s [t, t, t, t, t, t]) t =
           Returned (Some (runs s)) (length (calls s)) (Some (fn t (runs s))) \<and>
         runs (sf_run kf fn s [t, t, t, t, t, t]) = runs s + 1 \<and>
         sf_m (sf_run kf fn s [t, t, t, t, t, t]) (kf t) = None"
  using assms by (simp add: sf_step_def)

lemma sf_run_append: "sf_run kf fn s (xs @ ys) = sf_run kf fn (sf_run kf fn s xs) ys"
  by (induction xs arbitrary: s) simp_all

lemma sf_step_led:
  assumes "sf_step kf fn s u = Some s'" "led (pcs s ld) = Some c"
  shows "led (pcs s' ld) = Some c"
  using assms by (cases "pcs s u") (auto simp: sf_step_def split: option.splits if_splits)

lemma sf_step_exec:
  assumes "sf_step kf fn s u = Some s'" "exec_no (pcs s ld) = Some n"
  shows "exec_no (pcs s' ld) = Some n"
  using assms by (cases "pcs s u") (auto simp: sf_step_def split: option.splits if_splits)

lemma sf_step_waiter:
  assumes "sf_step kf fn s u = Some s'" "pcs s t = Waiting c \<or> (\<exists>r. pcs s t = Returned None c r)"
  shows "pcs s' t = Waiting c \<or> (\<exists>r. pcs s' t = Returned None c r)"
  using assms by (cases "pcs s u") (auto simp: sf_step_def split: option.splits if_splits)

lemma sf_run_led:
  "led (pcs s ld) = Some c \<Longrightarrow> led (pcs (sf_run kf fn s sched) ld) = Some c"
proof (induction sched arbitrary: s)
  case Nil
  then show ?case by simp
next
  case (Cons u sched)
  show ?case
  proof (cases "sf_step kf fn s u")
    case None
    with Cons show ?thesis by simp
  next
    case (Some s')
    from sf_step_led [OF Some Cons.prems] Cons.IH Some show ?thesis by simp
  qed
qed

lemma sf_run_waiter:
  "pcs s t = Waiting c \<or> (\<exists>r. pcs s t = Returned None c r) \<Longrightarrow>
   pcs (sf_run kf fn s sched) t = Waiting c \<or> (\<exists>r. pcs (sf_run kf fn s sched) t = Returned None c r)"
proof (induction sched arbitrary: s)
  case Nil
  then show ?case by simp
next
  case (Cons u sched)
  show ?case
  proof (cases "sf_step kf fn s u")
    case None
    with Cons show ?thesis by simp
  next
    case (Some s')
    from sf_step_waiter [OF Some Cons.prems] Cons.IH Some show ?thesis by simp
  qed
qed

text \<open>
  A caller that takes the lock while the record of its key is in the map waits on that very
  record, and what it returns is what the leader of the record computed and returns.
\<close>

lemma sf_arrival:
  assumes inv: "sf_inv kf fn s"
    and t: "pcs s t = Calling"
    and ld: "kf ld = kf t" "in_flight (pcs s ld)" "led (pcs s ld) = Some c"
  shows "pcs (sf_run kf fn s (t # rest)) t = Waiting c \<or>
         (\<exists>r. pcs (sf_run kf fn s (t # rest)) t = Returned None c r)"
    and "pcs (sf_run kf fn s (t # rest)) t = Returned role c' r \<Longrightarrow>
         \<exists>n. exec_no (pcs (sf_run kf fn s (t # rest)) ld) = Some n \<and> r = Some (fn ld n)"
    and "pcs (sf_run kf fn s (t # rest)) t = Returned role c' r \<Longrightarrow>
         pcs (sf_run kf fn s (t # rest)) ld = Returned role' c'' r' \<Longrightarrow> r' = r"
proof -
  let ?F = "sf_run kf fn s (t # rest)"
  let ?s1 = "s\<lparr>pcs := (pcs s)(t := Waiting c)\<rparr>"
  from sf_inv_map [OF inv ld(2,3)] ld(1) have m: "sf_m s (kf t) = Some c" by simp
  with t have st: "sf_step kf fn s t = Some ?s1" by (simp add: sf_step_def)
  then have F: "?F = sf_run kf fn ?s1 rest" by simp
  have ne: "ld \<noteq> t" using t ld(3) by auto
  have w: "pcs ?F t = Waiting c \<or> (\<exists>r. pcs ?F t = Returned None c r)"
    unfolding F by (rule sf_run_waiter) simp
  then show "pcs ?F t = Waiting c \<or> (\<exists>r. pcs ?F t = Returned None c r)" .
  have l: "led (pcs ?F ld) = Some c"
    unfolding F using ne ld(3) by (intro sf_run_led) simp
  have invF: "sf_inv kf fn ?F" using inv by (rule sf_inv_run)
  have res: "\<exists>n. exec_no (pcs ?F ld) = Some n \<and> r = Some (fn ld n)"
    if ret: "pcs ?F t = Returned role c' r" for role c' r
  proof -
    from w ret have c': "c' = c" by auto
    from sf_returned_result [OF invF ret] obtain ld' n where
      x: "led (pcs ?F ld') = Some c'" "exec_no (pcs ?F ld') = Some n" "r = Some (fn ld' n)"
      by blast
    from sf_inv_unique [OF invF x(1) [unfolded c'] l] have "ld' = ld" .
    with x show ?thesis by blast
  qed
  then show "pcs ?F t = Returned role c' r \<Longrightarrow>
         \<exists>n. exec_no (pcs ?F ld) = Some n \<and> r = Some (fn ld n)" .
  show "r' = r" if ret: "pcs ?F t = Returned role c' r" and lead: "pcs ?F ld = Returned role' c'' r'"
  proof -
    from res [OF ret] obtain n where n: "exec_no (pcs ?F ld) = Some n" "r = Some (fn ld n)" by blast
    from n(1) lead have "role' = Some n" by simp
    with lead sf_inv_leader_result [OF invF, of ld n c'' r'] n(2) show ?thesis by simp
  qed
qed

text \<open>A caller that takes the lock while no load of its key is in flight installs a new
  record and begins a new execution of \<open>fn\<close>.\<close>

lemma sf_fresh:
  assumes inv: "sf_inv kf fn s" and t: "pcs s t = Calling"
    and quiet: "\<forall>ld. kf ld = kf t \<longrightarrow> \<not> in_flight (pcs s ld)"
  shows "pcs (sf_run kf fn s [t, t]) t = InFn (length (calls s)) (runs s) \<and>
         length (calls (sf_run kf fn s [t, t])) = Suc (length (calls s)) \<and>
         runs (sf_run kf fn s [t, t]) = Suc (runs s)"
proof -
  from sf_map_iff [OF inv, of "kf t"] quiet have "sf_m s (kf t) = None" by auto
  with t show ?thesis by (simp add: sf_step_def)
qed

subsection \<open>Records and executions\<close>

lemma sf_counted_init: "sf_counted sf_init"
  by (simp add: sf_counted_def sf_init_def)

lemma exec_led: "exec_no p = Some n \<Longrightarrow> \<exists>c. led p = Some c"
  by (cases p rule: led.cases) auto

lemma led_exec: "led p = Some c \<Longrightarrow> p = Installed c \<or> (\<exists>n. exec_no p = Some n)"
  by (cases p rule: led.cases) auto

lemma sf_counted_same:
  assumes c: "sf_counted s"
    and "length (calls s') = length (calls s)" "runs s' = runs s" "pcs s' = (pcs s)(t := p')"
    and "led p' = led (pcs s t)" "exec_no p' = exec_no (pcs s t)"
  shows "sf_counted s'"
proof -
  have l: "led (pcs s' u) = led (pcs s u)" and e: "exec_no (pcs s' u) = exec_no (pcs s u)" for u
    using assms(4,5,6) by simp_all
  from c show ?thesis unfolding sf_counted_def l e assms(2,3) .
qed

lemma sf_counted_install:
  assumes c: "sf_counted s" and t: "pcs s t = Calling"
  shows "sf_counted (s\<lparr>calls := calls s @ [x], sf_m := m', pcs := (pcs s)(t := Installed (length (calls s)))\<rparr>)"
    (is "sf_counted ?s'")
proof -
  have e: "exec_no (pcs ?s' u) = exec_no (pcs s u)" for u using t by simp
  have 1: "\<exists>u. led (pcs ?s' u) = Some d" if "d < length (calls ?s')" for d
  proof (cases "d = length (calls s)")
    case True
    then show ?thesis by (intro exI [of _ t]) simp
  next
    case False
    with that have "d < length (calls s)" by simp
    with c obtain u where u: "led (pcs s u) = Some d" unfolding sf_counted_def by blast
    with t have "u \<noteq> t" by auto
    with u show ?thesis by (intro exI [of _ u]) simp
  qed
  from c have 2: "\<forall>u n. exec_no (pcs ?s' u) = Some n \<longrightarrow> n < runs ?s'"
    and 3: "\<forall>n. n < runs ?s' \<longrightarrow> (\<exists>u. exec_no (pcs ?s' u) = Some n)"
    and 4: "\<forall>u u' n. exec_no (pcs ?s' u) = Some n \<and> exec_no (pcs ?s' u') = Some n \<longrightarrow> u = u'"
    unfolding sf_counted_def e by simp_all
  from 1 2 3 4 show ?thesis unfolding sf_counted_def by blast
qed

lemma sf_counted_enter:
  assumes c: "sf_counted s" and t: "pcs s t = Installed d"
  shows "sf_counted (s\<lparr>pcs := (pcs s)(t := InFn d (runs s)), runs := runs s + 1\<rparr>)"
    (is "sf_counted ?s'")
proof -
  have l: "led (pcs ?s' u) = led (pcs s u)" for u using t by simp
  have old: "exec_no (pcs ?s' u) = exec_no (pcs s u)" if "u \<noteq> t" for u using that by simp
  have new: "exec_no (pcs ?s' t) = Some (runs s)" by simp
  have none: "exec_no (pcs s t) = None" using t by simp
  from c have bound: "\<And>u n. exec_no (pcs s u) = Some n \<Longrightarrow> n < runs s"
    and ex: "\<And>n. n < runs s \<Longrightarrow> \<exists>u. exec_no (pcs s u) = Some n"
    and uniq: "\<And>u u' n. exec_no (pcs s u) = Some n \<Longrightarrow> exec_no (pcs s u') = Some n \<Longrightarrow> u = u'"
    and lead: "\<And>c. c < length (calls s) \<Longrightarrow> \<exists>u. led (pcs s u) = Some c"
    unfolding sf_counted_def by blast+
  have 1: "\<exists>u. led (pcs ?s' u) = Some c" if "c < length (calls ?s')" for c
    using lead [of c] that unfolding l by simp
  have 2: "n < runs ?s'" if "exec_no (pcs ?s' u) = Some n" for u n
  proof (cases "u = t")
    case True
    with that show ?thesis by simp
  next
    case False
    with that bound [of u n] show ?thesis by simp
  qed
  have 3: "\<exists>u. exec_no (pcs ?s' u) = Some n" if "n < runs ?s'" for n
  proof (cases "n = runs s")
    case True
    then show ?thesis by (intro exI [of _ t]) simp
  next
    case False
    with that have "n < runs s" by simp
    from ex [OF this] obtain u where u: "exec_no (pcs s u) = Some n" by blast
    with none have "u \<noteq> t" by auto
    with u show ?thesis by (intro exI [of _ u]) simp
  qed
  have 4: "u = u'" if a: "exec_no (pcs ?s' u) = Some n" and b: "exec_no (pcs ?s' u') = Some n" for u u' n
  proof (cases "u = t")
    case True
    with a have n: "n = runs s" by simp
    show ?thesis
    proof (rule ccontr)
      assume "u \<noteq> u'"
      with True have "u' \<noteq> t" by simp
      with b have "exec_no (pcs s u') = Some n" by simp
      from bound [OF this] n show False by simp
    qed
  next
    case False
    with a have a': "exec_no (pcs s u) = Some n" by simp
    show ?thesis
    proof (cases "u' = t")
      case True
      with b have "n = runs s" by simp
      with bound [OF a'] show ?thesis by simp
    next
      case False
      with b have "exec_no (pcs s u') = Some n" by simp
      with a' show ?thesis by (rule uniq)
    qed
  qed
  from 1 2 3 4 show ?thesis unfolding sf_counted_def by blast
qed

lemma sf_counted_step:
  assumes c: "sf_counted s" and st: "sf_step kf fn s t = Some s'"
  shows "sf_counted s'"
proof (cases "pcs s t")
  case Calling
  show ?thesis
  proof (cases "sf_m s (kf t)")
    case None
    with Calling st have "s' = s\<lparr>calls := calls s @ [\<lparr>finished = False, res = None\<rparr>],
        sf_m := (sf_m s)(kf t \<mapsto> length (calls s)),
        pcs := (pcs s)(t := Installed (length (calls s)))\<rparr>"
      by (simp add: sf_step_def)
    with sf_counted_install [OF c Calling] show ?thesis by simp
  next
    case (Some d)
    with Calling st have "s' = s\<lparr>pcs := (pcs s)(t := Waiting d)\<rparr>" by (simp add: sf_step_def)
    with Calling show ?thesis by (intro sf_counted_same [OF c, of s' t "Waiting d"]) simp_all
  qed
next
  case (Waiting d)
  with st have "s' = s\<lparr>pcs := (pcs s)(t := Returned None d (res (calls s ! d)))\<rparr>"
    by (simp add: sf_step_def split: if_splits)
  with Waiting show ?thesis
    by (intro sf_counted_same [OF c, of s' t "Returned None d (res (calls s ! d))"]) simp_all
next
  case (Installed d)
  with st have "s' = s\<lparr>pcs := (pcs s)(t := InFn d (runs s)), runs := runs s + 1\<rparr>"
    by (simp add: sf_step_def)
  with sf_counted_enter [OF c Installed] show ?thesis by simp
next
  case (InFn d n)
  with st have "pcs s' = (pcs s)(t := Stored d n)" "length (calls s') = length (calls s)" "runs s' = runs s"
    by (auto simp: sf_step_def)
  with InFn show ?thesis by (intro sf_counted_same [OF c, of s' t "Stored d n"]) simp_all
next
  case (Stored d n)
  with st have "pcs s' = (pcs s)(t := Released d n)" "length (calls s') = length (calls s)" "runs s' = runs s"
    by (auto simp: sf_step_def)
  with Stored show ?thesis by (intro sf_counted_same [OF c, of s' t "Released d n"]) simp_all
next
  case (Released d n)
  with st have "pcs s' = (pcs s)(t := Deleted d n)" "length (calls s') = length (calls s)" "runs s' = runs s"
    by (auto simp: sf_step_def)
  with Released show ?thesis by (intro sf_counted_same [OF c, of s' t "Deleted d n"]) simp_all
next
  case (Deleted d n)
  with st have "pcs s' = (pcs s)(t := Returned (Some n) d (res (calls s ! d)))"
    "length (calls s') = length (calls s)" "runs s' = runs s"
    by (auto simp: sf_step_def)
  with Deleted show ?thesis
    by (intro sf_counted_same [OF c, of s' t "Returned (Some n) d (res (calls s ! d))"]) simp_all
next
  case (Returned role d r)
  with st show ?thesis by (simp add: sf_step_def)
qed

lemma sf_counted_run: "sf_counted s \<Longrightarrow> sf_counted (sf_run kf fn s sched)"
proof (induction sched arbitrary: s)
  case Nil
  then show ?case by simp
next
  case (Cons t sched)
  show ?case
  proof (cases "sf_step kf fn s t")
    case None
    with Cons show ?thesis by simp
  next
    case (Some s')
    from sf_counted_step [OF Cons.prems Some] Cons.IH Some show ?thesis by simp
  qed
qed

lemma sf_reachable_counted: "sf_counted (sf_run kf fn sf_init sched)"
  by (rule sf_counted_run [OF sf_counted_init])


subsection \<open>The guarantees of single flight\<close>

text \<open>
  Claim C1, as stated, fails: two callers of \<^verbatim>\<open>Do("k", fn)\<close> whose calls overlap can
  both run \<open>fn\<close>. In the schedule below caller 0 installs its record, runs \<open>fn\<close>,
  releases the waiters and deletes the record; caller 1 takes the lock only then, before
  caller 0 has returned, finds no record and runs \<open>fn\<close> again. The function was executed
  twice, and the two callers hold different results (\<open>fn\<close> returns its execution number).
\<close>

theorem single_flight_counterexample:
  "runs (sf_run (\<lambda>t. ''k'') (\<lambda>t n. n) sf_init [0, 0, 0, 0, 0, 1, 1, 1, 1, 1, 1, 0]) = 2 \<and>
   pcs (sf_run (\<lambda>t. ''k'') (\<lambda>t n. n) sf_init [0, 0, 0, 0, 0, 1, 1, 1, 1, 1, 1, 0]) 0 =
     Returned (Some 0) 0 (Some 0) \<and>
   pcs (sf_run (\<lambda>t. ''k'') (\<lambda>t n. n) sf_init [0, 0, 0, 0, 0, 1, 1, 1, 1, 1, 1, 0]) 1 =
     Returned (Some 1) 1 (Some 1)"
  by (simp add: sf_init_def sf_step_def)

text \<open>
  Claim C1, amended. In every state that interleaved callers of \<^verbatim>\<open>Do\<close> can reach:
  at most one caller per key is inside \<open>fn\<close>; no call record has two leaders, and its
  leader executes \<open>fn\<close> once for it; every caller that has returned holds the result of that
  one execution of the leader of the record it used, a record of its own key, so all
  callers that used the same record hold the identical pair; and no caller is stuck: one that
  has not returned can move, or waits on a record whose leader can move, and when only the
  callers \<open>0, \<dots>, N - 1\<close> have moved, letting them move until none can (at most \<open>6 N\<close>
  steps) makes all of them return.

  A caller that takes the lock while the load of a leader of its key is in flight (record
  installed and not yet deleted, so in particular while \<open>fn\<close> is running) waits on that
  leader's record, whatever the other callers do afterwards: when it returns, it returns the
  pair of that leader's execution of \<open>fn\<close>, which is the pair the leader returns.

  The function is executed once for each record installed, not once for all callers: every
  record has a leader, the executions begun are numbered \<open>0, \<dots>, runs - 1\<close>, each is the
  execution of one leader, and a leader has begun one execution unless it has only just
  installed its record. A caller that takes the lock while no load of its key is in flight
  (none was begun, or the record was deleted) installs a new record and begins a new
  execution.
\<close>

theorem single_flight_guarantees:
  "(\<forall>t t' c n c' n'.
      pcs (sf_run kf fn sf_init sched) t = InFn c n \<and>
      pcs (sf_run kf fn sf_init sched) t' = InFn c' n' \<and> kf t = kf t' \<longrightarrow> t = t') \<and>
   (\<forall>t t' c. led (pcs (sf_run kf fn sf_init sched) t) = Some c \<and>
             led (pcs (sf_run kf fn sf_init sched) t') = Some c \<longrightarrow> t = t') \<and>
   (\<forall>t role c r. pcs (sf_run kf fn sf_init sched) t = Returned role c r \<longrightarrow>
      (\<exists>tl n. led (pcs (sf_run kf fn sf_init sched) tl) = Some c \<and>
              exec_no (pcs (sf_run kf fn sf_init sched) tl) = Some n \<and>
              kf tl = kf t \<and> r = Some (fn tl n))) \<and>
   (\<forall>t t' role role' c r r'.
      pcs (sf_run kf fn sf_init sched) t = Returned role c r \<and>
      pcs (sf_run kf fn sf_init sched) t' = Returned role' c r' \<longrightarrow> r = r') \<and>
   (\<forall>t. \<not> is_Returned (pcs (sf_run kf fn sf_init sched) t) \<longrightarrow>
      sf_step kf fn (sf_run kf fn sf_init sched) t \<noteq> None \<or>
      (\<exists>c tl. pcs (sf_run kf fn sf_init sched) t = Waiting c \<and>
              led (pcs (sf_run kf fn sf_init sched) tl) = Some c \<and>
              sf_step kf fn (sf_run kf fn sf_init sched) tl \<noteq> None)) \<and>
   (set sched \<subseteq> {..<N} \<longrightarrow>
      (\<forall>t < N. is_Returned (pcs (sf_drain kf fn N (6 * N) (sf_run kf fn sf_init sched)) t))) \<and>
   (\<forall>t tl c rest.
      pcs (sf_run kf fn sf_init sched) t = Calling \<and> kf tl = kf t \<and> in_flight (pcs (sf_run kf fn sf_init sched) tl) \<and> led (pcs (sf_run kf fn sf_init sched) tl) = Some c \<longrightarrow>
      (pcs (sf_run kf fn (sf_run kf fn sf_init sched) (t # rest)) t = Waiting c \<or> (\<exists>r. pcs (sf_run kf fn (sf_run kf fn sf_init sched) (t # rest)) t = Returned None c r)) \<and>
      (\<forall>role c' r. pcs (sf_run kf fn (sf_run kf fn sf_init sched) (t # rest)) t = Returned role c' r \<longrightarrow>
         (\<exists>n. exec_no (pcs (sf_run kf fn (sf_run kf fn sf_init sched) (t # rest)) tl) = Some n \<and> r = Some (fn tl n)) \<and>
         (\<forall>role' c'' r'. pcs (sf_run kf fn (sf_run kf fn sf_init sched) (t # rest)) tl = Returned role' c'' r' \<longrightarrow> r' = r))) \<and>
   (\<forall>c < length (calls (sf_run kf fn sf_init sched)). \<exists>t. led (pcs (sf_run kf fn sf_init sched) t) = Some c) \<and>
   (\<forall>t c. led (pcs (sf_run kf fn sf_init sched) t) = Some c \<longrightarrow>
      c < length (calls (sf_run kf fn sf_init sched)) \<and> (pcs (sf_run kf fn sf_init sched) t = Installed c \<or> (\<exists>n. exec_no (pcs (sf_run kf fn sf_init sched) t) = Some n))) \<and>
   (\<forall>t n. exec_no (pcs (sf_run kf fn sf_init sched) t) = Some n \<longrightarrow> n < runs (sf_run kf fn sf_init sched) \<and> (\<exists>c. led (pcs (sf_run kf fn sf_init sched) t) = Some c)) \<and>
   (\<forall>n < runs (sf_run kf fn sf_init sched). \<exists>t. exec_no (pcs (sf_run kf fn sf_init sched) t) = Some n) \<and>
   (\<forall>t t' n. exec_no (pcs (sf_run kf fn sf_init sched) t) = Some n \<and> exec_no (pcs (sf_run kf fn sf_init sched) t') = Some n \<longrightarrow> t = t') \<and>
   (\<forall>t. pcs (sf_run kf fn sf_init sched) t = Calling \<and> (\<forall>tl. kf tl = kf t \<longrightarrow> \<not> in_flight (pcs (sf_run kf fn sf_init sched) tl)) \<longrightarrow>
      pcs (sf_run kf fn (sf_run kf fn sf_init sched) [t, t]) t = InFn (length (calls (sf_run kf fn sf_init sched))) (runs (sf_run kf fn sf_init sched)) \<and>
      length (calls (sf_run kf fn (sf_run kf fn sf_init sched) [t, t])) = Suc (length (calls (sf_run kf fn sf_init sched))) \<and>
      runs (sf_run kf fn (sf_run kf fn sf_init sched) [t, t]) = Suc (runs (sf_run kf fn sf_init sched)))"
proof (intro conjI allI impI)
  let ?S = "sf_run kf fn sf_init sched"
  have inv: "sf_inv kf fn ?S" by (rule sf_reachable_inv)
  show "t = t'" if "pcs ?S t = InFn c n \<and> pcs ?S t' = InFn c' n' \<and> kf t = kf t'" for t t' c n c' n'
    using sf_one_running [OF inv, of t c n t' c' n'] that by blast
  show "t = t'" if "led (pcs ?S t) = Some c \<and> led (pcs ?S t') = Some c" for t t' c
    using sf_inv_unique [OF inv, of t c t'] that by blast
  show "\<exists>tl n. led (pcs ?S tl) = Some c \<and> exec_no (pcs ?S tl) = Some n \<and> kf tl = kf t \<and> r = Some (fn tl n)"
    if "pcs ?S t = Returned role c r" for t role c r
    using inv that by (rule sf_returned_result)
  show "r = r'" if "pcs ?S t = Returned role c r \<and> pcs ?S t' = Returned role' c r'"
    for t t' role role' c r r'
    using sf_same_result [OF inv, of t role c r t' role' r'] that by blast
  show "sf_step kf fn ?S t \<noteq> None \<or>
      (\<exists>c tl. pcs ?S t = Waiting c \<and> led (pcs ?S tl) = Some c \<and> sf_step kf fn ?S tl \<noteq> None)"
    if "\<not> is_Returned (pcs ?S t)" for t
    using inv that by (rule sf_progress)
  show "is_Returned (pcs (sf_drain kf fn N (6 * N) ?S) t)" if "set sched \<subseteq> {..<N}" "t < N" for t
    using sf_all_return [OF that(1), of kf fn] that(2) by blast
  have cnt: "sf_counted ?S" by (rule sf_reachable_counted)
  show "pcs (sf_run kf fn ?S (t # rest)) t = Waiting c \<or>
        (\<exists>r. pcs (sf_run kf fn ?S (t # rest)) t = Returned None c r)"
    if "pcs ?S t = Calling \<and> kf ld = kf t \<and> in_flight (pcs ?S ld) \<and> led (pcs ?S ld) = Some c"
    for t ld c rest
    using sf_arrival(1) [OF inv, of t ld c rest] that by blast
  show "\<exists>n. exec_no (pcs (sf_run kf fn ?S (t # rest)) ld) = Some n \<and> r = Some (fn ld n)"
    if "pcs ?S t = Calling \<and> kf ld = kf t \<and> in_flight (pcs ?S ld) \<and> led (pcs ?S ld) = Some c"
      "pcs (sf_run kf fn ?S (t # rest)) t = Returned role c' r"
    for t ld c rest role c' r
    using sf_arrival(2) [OF inv, of t ld c rest role c' r] that by blast
  show "r' = r"
    if "pcs ?S t = Calling \<and> kf ld = kf t \<and> in_flight (pcs ?S ld) \<and> led (pcs ?S ld) = Some c"
      "pcs (sf_run kf fn ?S (t # rest)) t = Returned role c' r"
      "pcs (sf_run kf fn ?S (t # rest)) ld = Returned role' c'' r'"
    for t ld c rest role c' r role' c'' r'
    using sf_arrival(3) [OF inv, of t ld c rest role c' r role' c'' r'] that by blast
  show "\<exists>t. led (pcs ?S t) = Some c" if "c < length (calls ?S)" for c
    using cnt that unfolding sf_counted_def by blast
  show "c < length (calls ?S)" if "led (pcs ?S t) = Some c" for t c
    using sf_inv_led [OF inv that] by simp
  show "pcs ?S t = Installed c \<or> (\<exists>n. exec_no (pcs ?S t) = Some n)"
    if "led (pcs ?S t) = Some c" for t c
    using that by (rule led_exec)
  show "n < runs ?S" if "exec_no (pcs ?S t) = Some n" for t n
    using cnt that unfolding sf_counted_def by blast
  show "\<exists>c. led (pcs ?S t) = Some c" if "exec_no (pcs ?S t) = Some n" for t n
    using that by (rule exec_led)
  show "\<exists>t. exec_no (pcs ?S t) = Some n" if "n < runs ?S" for n
    using cnt that unfolding sf_counted_def by blast
  show "t = t'" if "exec_no (pcs ?S t) = Some n \<and> exec_no (pcs ?S t') = Some n" for t t' n
    using cnt that unfolding sf_counted_def by blast
  show "pcs (sf_run kf fn ?S [t, t]) t = InFn (length (calls ?S)) (runs ?S)"
    if "pcs ?S t = Calling \<and> (\<forall>ld. kf ld = kf t \<longrightarrow> \<not> in_flight (pcs ?S ld))" for t
    using sf_fresh [OF inv, of t] that by blast
  show "length (calls (sf_run kf fn ?S [t, t])) = Suc (length (calls ?S))"
    if "pcs ?S t = Calling \<and> (\<forall>ld. kf ld = kf t \<longrightarrow> \<not> in_flight (pcs ?S ld))" for t
    using sf_fresh [OF inv, of t] that by blast
  show "runs (sf_run kf fn ?S [t, t]) = Suc (runs ?S)"
    if "pcs ?S t = Calling \<and> (\<forall>ld. kf ld = kf t \<longrightarrow> \<not> in_flight (pcs ?S ld))" for t
    using sf_fresh [OF inv, of t] that by blast
qed

theorem single_flight_guarantees_witness:
  "pcs (sf_run (\<lambda>t. ''k'') (\<lambda>t n. n) sf_init [0, 0]) 0 = InFn 0 0 \<and>
   pcs (sf_run (\<lambda>t. ''k'') (\<lambda>t n. n) sf_init [0, 0, 1, 2]) 1 = Waiting 0 \<and>
   led (pcs (sf_run (\<lambda>t. ''k'') (\<lambda>t n. n) sf_init [0, 0, 1, 2]) 0) = Some 0 \<and>
   sf_step (\<lambda>t. ''k'') (\<lambda>t n. n) (sf_run (\<lambda>t. ''k'') (\<lambda>t n. n) sf_init [0, 0, 1, 2]) 1 = None \<and>
   sf_step (\<lambda>t. ''k'') (\<lambda>t n. n) (sf_run (\<lambda>t. ''k'') (\<lambda>t n. n) sf_init [0, 0, 1, 2]) 0 \<noteq> None \<and>
   pcs (sf_run (\<lambda>t. ''k'') (\<lambda>t n. n) sf_init [0, 0, 1, 2, 0, 0, 0, 0, 1, 2]) 0 = Returned (Some 0) 0 (Some 0) \<and>
   pcs (sf_run (\<lambda>t. ''k'') (\<lambda>t n. n) sf_init [0, 0, 1, 2, 0, 0, 0, 0, 1, 2]) 1 = Returned None 0 (Some 0) \<and>
   pcs (sf_run (\<lambda>t. ''k'') (\<lambda>t n. n) sf_init [0, 0, 1, 2, 0, 0, 0, 0, 1, 2]) 2 = Returned None 0 (Some 0) \<and>
   exec_no (pcs (sf_run (\<lambda>t. ''k'') (\<lambda>t n. n) sf_init [0, 0, 1, 2, 0, 0, 0, 0, 1, 2]) 0) = Some 0 \<and>
   runs (sf_run (\<lambda>t. ''k'') (\<lambda>t n. n) sf_init [0, 0, 1, 2, 0, 0, 0, 0, 1, 2]) = 1 \<and>
   set [0, 0, 1, 2] \<subseteq> {..<3::nat} \<and>
   is_Returned (pcs (sf_drain (\<lambda>t. ''k'') (\<lambda>t n. n) 3 (6 * 3) (sf_run (\<lambda>t. ''k'') (\<lambda>t n. n) sf_init [0, 0, 1, 2])) 1) \<and>
   pcs (sf_run (\<lambda>t. ''k'') (\<lambda>t n. n) sf_init [0, 0]) 1 = Calling \<and>
   in_flight (pcs (sf_run (\<lambda>t. ''k'') (\<lambda>t n. n) sf_init [0, 0]) 0) \<and>
   led (pcs (sf_run (\<lambda>t. ''k'') (\<lambda>t n. n) sf_init [0, 0]) 0) = Some 0 \<and>
   pcs (sf_run (\<lambda>t. ''k'') (\<lambda>t n. n) (sf_run (\<lambda>t. ''k'') (\<lambda>t n. n) sf_init [0, 0]) [1, 2, 0, 0, 0, 0, 1, 2]) 1 = Returned None 0 (Some 0) \<and>
   pcs (sf_run (\<lambda>t. ''k'') (\<lambda>t n. n) (sf_run (\<lambda>t. ''k'') (\<lambda>t n. n) sf_init [0, 0]) [1, 2, 0, 0, 0, 0, 1, 2]) 0 = Returned (Some 0) 0 (Some 0) \<and>
   length (calls (sf_run (\<lambda>t. ''k'') (\<lambda>t n. n) sf_init [0, 0, 1, 2, 0, 0, 0, 0, 1, 2])) = 1 \<and>
   pcs (sf_run (\<lambda>t. ''k'') (\<lambda>t n. n) sf_init [0, 0, 0, 0, 0]) 1 = Calling \<and>
   \<not> in_flight (pcs (sf_run (\<lambda>t. ''k'') (\<lambda>t n. n) sf_init [0, 0, 0, 0, 0]) 0) \<and>
   pcs (sf_run (\<lambda>t. ''k'') (\<lambda>t n. n) (sf_run (\<lambda>t. ''k'') (\<lambda>t n. n) sf_init [0, 0, 0, 0, 0]) [1, 1]) 1 = InFn 1 1 \<and>
   runs (sf_run (\<lambda>t. ''k'') (\<lambda>t n. n) (sf_run (\<lambda>t. ''k'') (\<lambda>t n. n) sf_init [0, 0, 0, 0, 0]) [1, 1]) = 2"
proof -
  have e: "pcs (sf_run (\<lambda>t. ''k'') (\<lambda>t n. n) sf_init [0, 0]) 0 = InFn 0 0 \<and>
   pcs (sf_run (\<lambda>t. ''k'') (\<lambda>t n. n) sf_init [0, 0, 1, 2]) 1 = Waiting 0 \<and>
   led (pcs (sf_run (\<lambda>t. ''k'') (\<lambda>t n. n) sf_init [0, 0, 1, 2]) 0) = Some 0 \<and>
   sf_step (\<lambda>t. ''k'') (\<lambda>t n. n) (sf_run (\<lambda>t. ''k'') (\<lambda>t n. n) sf_init [0, 0, 1, 2]) 1 = None \<and>
   sf_step (\<lambda>t. ''k'') (\<lambda>t n. n) (sf_run (\<lambda>t. ''k'') (\<lambda>t n. n) sf_init [0, 0, 1, 2]) 0 \<noteq> None \<and>
   pcs (sf_run (\<lambda>t. ''k'') (\<lambda>t n. n) sf_init [0, 0, 1, 2, 0, 0, 0, 0, 1, 2]) 0 = Returned (Some 0) 0 (Some 0) \<and>
   pcs (sf_run (\<lambda>t. ''k'') (\<lambda>t n. n) sf_init [0, 0, 1, 2, 0, 0, 0, 0, 1, 2]) 1 = Returned None 0 (Some 0)"
    by (simp add: sf_init_def sf_step_def)
  have f: "pcs (sf_run (\<lambda>t. ''k'') (\<lambda>t n. n) sf_init [0, 0, 1, 2, 0, 0, 0, 0, 1, 2]) 2 =
      Returned None 0 (res (calls (sf_run (\<lambda>t. ''k'') (\<lambda>t n. n) sf_init [0, 0, 1, 2, 0, 0, 0, 0, 1]) ! 0))"
    by (simp add: sf_init_def sf_step_def)
  have g: "exec_no (pcs (sf_run (\<lambda>t. ''k'') (\<lambda>t n. n) sf_init [0, 0, 1, 2, 0, 0, 0, 0, 1, 2]) 0) = Some 0 \<and>
      runs (sf_run (\<lambda>t. ''k'') (\<lambda>t n. n) sf_init [0, 0, 1, 2, 0, 0, 0, 0, 1, 2]) = 1 \<and>
      length (calls (sf_run (\<lambda>t. ''k'') (\<lambda>t n. n) sf_init [0, 0, 1, 2, 0, 0, 0, 0, 1, 2])) = 1"
    by (simp add: sf_init_def sf_step_def)
  have sub: "set [0, 0, 1, 2] \<subseteq> {..<3::nat}" by simp
  note drained = single_flight_guarantees [of "\<lambda>t. ''k''" "\<lambda>t n. n" "[0, 0, 1, 2]" 3,
      THEN conjunct2, THEN conjunct2, THEN conjunct2, THEN conjunct2, THEN conjunct2,
      THEN conjunct1]
  from drained sub
  have "\<forall>t < 3. is_Returned (pcs (sf_drain (\<lambda>t. ''k'') (\<lambda>t n. n) 3 (6 * 3) (sf_run (\<lambda>t. ''k'') (\<lambda>t n. n) sf_init [0, 0, 1, 2])) t)"
    by (rule mp)
  moreover have "(1::nat) < 3" by simp
  ultimately have all: "is_Returned (pcs (sf_drain (\<lambda>t. ''k'') (\<lambda>t n. n) 3 (6 * 3) (sf_run (\<lambda>t. ''k'') (\<lambda>t n. n) sf_init [0, 0, 1, 2])) 1)"
    by blast
  note shared = single_flight_guarantees [of "\<lambda>t. ''k''" "\<lambda>t n. n"
      "[0, 0, 1, 2, 0, 0, 0, 0, 1, 2]" 0,
      THEN conjunct2, THEN conjunct2, THEN conjunct2, THEN conjunct1]
  from shared
  have same: "\<And>t t' role role' c r r'.
      pcs (sf_run (\<lambda>t. ''k'') (\<lambda>t n. n) sf_init [0, 0, 1, 2, 0, 0, 0, 0, 1, 2]) t = Returned role c r \<Longrightarrow>
      pcs (sf_run (\<lambda>t. ''k'') (\<lambda>t n. n) sf_init [0, 0, 1, 2, 0, 0, 0, 0, 1, 2]) t' = Returned role' c r' \<Longrightarrow>
      r = r'"
    by blast
  from e have one: "pcs (sf_run (\<lambda>t. ''k'') (\<lambda>t n. n) sf_init [0, 0, 1, 2, 0, 0, 0, 0, 1, 2]) 1 =
      Returned None 0 (Some 0)" by blast
  from same [OF f one] f
  have two: "pcs (sf_run (\<lambda>t. ''k'') (\<lambda>t n. n) sf_init [0, 0, 1, 2, 0, 0, 0, 0, 1, 2]) 2 =
      Returned None 0 (Some 0)" by simp
  have h: "pcs (sf_run (\<lambda>t. ''k'') (\<lambda>t n. n) sf_init [0, 0]) 1 = Calling \<and>
      in_flight (pcs (sf_run (\<lambda>t. ''k'') (\<lambda>t n. n) sf_init [0, 0]) 0) \<and>
      led (pcs (sf_run (\<lambda>t. ''k'') (\<lambda>t n. n) sf_init [0, 0]) 0) = Some 0"
    by (simp add: sf_init_def sf_step_def)
  have i: "pcs (sf_run (\<lambda>t. ''k'') (\<lambda>t n. n) (sf_run (\<lambda>t. ''k'') (\<lambda>t n. n) sf_init [0, 0]) [1, 2, 0, 0, 0, 0, 1, 2]) 0 =
      Returned (Some 0) 0 (Some 0)"
    by (simp add: sf_init_def sf_step_def)
  have j: "pcs (sf_run (\<lambda>t. ''k'') (\<lambda>t n. n) (sf_run (\<lambda>t. ''k'') (\<lambda>t n. n) sf_init [0, 0]) [1, 2, 0, 0, 0, 0, 1, 2]) 1 =
      Returned None 0 (res (calls (sf_run (\<lambda>t. ''k'') (\<lambda>t n. n) sf_init [0, 0, 1, 2, 0, 0, 0, 0]) ! 0))"
    by (simp add: sf_init_def sf_step_def)
  have H: "pcs (sf_run (\<lambda>t. ''k'') (\<lambda>t n. n) sf_init [0, 0]) 1 = Calling \<and> ''k'' = ''k'' \<and>
      in_flight (pcs (sf_run (\<lambda>t. ''k'') (\<lambda>t n. n) sf_init [0, 0]) 0) \<and>
      led (pcs (sf_run (\<lambda>t. ''k'') (\<lambda>t n. n) sf_init [0, 0]) 0) = Some 0"
    using h by blast
  note arrival = single_flight_guarantees [of "\<lambda>t. ''k''" "\<lambda>t n. n" "[0, 0]" 0,
      THEN conjunct2, THEN conjunct2, THEN conjunct2, THEN conjunct2, THEN conjunct2,
      THEN conjunct2, THEN conjunct1, THEN spec, THEN spec, THEN spec, THEN spec,
      of 1 0 0 "[2, 0, 0, 0, 0, 1, 2]", THEN mp, OF H, THEN conjunct2,
      THEN spec, THEN spec, THEN spec, THEN mp, OF j, THEN conjunct2,
      THEN spec, THEN spec, THEN spec, THEN mp, OF i]
  from arrival j
  have k: "pcs (sf_run (\<lambda>t. ''k'') (\<lambda>t n. n) (sf_run (\<lambda>t. ''k'') (\<lambda>t n. n) sf_init [0, 0]) [1, 2, 0, 0, 0, 0, 1, 2]) 1 =
      Returned None 0 (Some 0)"
    by (simp only:)
  have l: "pcs (sf_run (\<lambda>t. ''k'') (\<lambda>t n. n) sf_init [0, 0, 0, 0, 0]) 1 = Calling \<and>
      \<not> in_flight (pcs (sf_run (\<lambda>t. ''k'') (\<lambda>t n. n) sf_init [0, 0, 0, 0, 0]) 0) \<and>
      pcs (sf_run (\<lambda>t. ''k'') (\<lambda>t n. n) (sf_run (\<lambda>t. ''k'') (\<lambda>t n. n) sf_init [0, 0, 0, 0, 0]) [1, 1]) 1 = InFn 1 1 \<and>
      runs (sf_run (\<lambda>t. ''k'') (\<lambda>t n. n) (sf_run (\<lambda>t. ''k'') (\<lambda>t n. n) sf_init [0, 0, 0, 0, 0]) [1, 1]) = 2"
    by (simp add: sf_init_def sf_step_def)
  from e two g sub all h i k l show ?thesis by blast
qed

text \<open>
  Claim C8. In every state that interleaved callers of \<^verbatim>\<open>Do\<close> can reach: the map has a
  record for \<open>k\<close> exactly when some caller's load for \<open>k\<close> is in flight (its record
  installed and not yet deleted); a leader that has executed \<^verbatim>\<open>delete\<close>, or has returned,
  no longer has its record in the map, and what it returns is the result of its own
  execution of its own \<open>fn\<close>; and a caller that enters when every other caller of its key
  has either not entered or returned finds no record, installs a new one, and, run to the end,
  executes its \<open>fn\<close> once more (the count of executions grows by one) and returns that
  execution's result, leaving no record behind.
\<close>

theorem in_flight_record:
  "((sf_m (sf_run kf fn sf_init sched) k \<noteq> None) =
      (\<exists>t. kf t = k \<and> in_flight (pcs (sf_run kf fn sf_init sched) t))) \<and>
   (\<forall>t c n. pcs (sf_run kf fn sf_init sched) t = Deleted c n \<longrightarrow>
      sf_m (sf_run kf fn sf_init sched) (kf t) \<noteq> Some c) \<and>
   (\<forall>t c n r. pcs (sf_run kf fn sf_init sched) t = Returned (Some n) c r \<longrightarrow>
      sf_m (sf_run kf fn sf_init sched) (kf t) \<noteq> Some c \<and> r = Some (fn t n)) \<and>
   (pcs (sf_run kf fn sf_init sched) t = Calling \<and>
    (\<forall>t'. kf t' = kf t \<longrightarrow>
       pcs (sf_run kf fn sf_init sched) t' = Calling \<or> is_Returned (pcs (sf_run kf fn sf_init sched) t')) \<longrightarrow>
      sf_m (sf_run kf fn sf_init sched) (kf t) = None \<and>
      pcs (sf_run kf fn (sf_run kf fn sf_init sched) [t, t, t, t, t, t]) t =
        Returned (Some (runs (sf_run kf fn sf_init sched)))
          (length (calls (sf_run kf fn sf_init sched)))
          (Some (fn t (runs (sf_run kf fn sf_init sched)))) \<and>
      runs (sf_run kf fn (sf_run kf fn sf_init sched) [t, t, t, t, t, t]) =
        runs (sf_run kf fn sf_init sched) + 1 \<and>
      sf_m (sf_run kf fn (sf_run kf fn sf_init sched) [t, t, t, t, t, t]) (kf t) = None)"
proof -
  let ?S = "sf_run kf fn sf_init sched"
  have inv: "sf_inv kf fn ?S" by (rule sf_reachable_inv)
  have a: "(sf_m ?S k \<noteq> None) = (\<exists>t. kf t = k \<and> in_flight (pcs ?S t))"
    using inv by (rule sf_map_iff)
  have b: "sf_m ?S (kf t) \<noteq> Some c" if "pcs ?S t = Deleted c n" for t c n
    using that by (intro sf_removed [OF inv]) simp_all
  have c: "sf_m ?S (kf t) \<noteq> Some c \<and> r = Some (fn t n)"
    if "pcs ?S t = Returned (Some n) c r" for t c n r
  proof
    show "sf_m ?S (kf t) \<noteq> Some c" using that by (intro sf_removed [OF inv]) simp_all
    show "r = Some (fn t n)" using inv that by (rule sf_inv_leader_result)
  qed
  have d: "sf_m ?S (kf t) = None \<and>
      pcs (sf_run kf fn ?S [t, t, t, t, t, t]) t =
        Returned (Some (runs ?S)) (length (calls ?S)) (Some (fn t (runs ?S))) \<and>
      runs (sf_run kf fn ?S [t, t, t, t, t, t]) = runs ?S + 1 \<and>
      sf_m (sf_run kf fn ?S [t, t, t, t, t, t]) (kf t) = None"
    if p: "pcs ?S t = Calling"
      and q: "\<forall>t'. kf t' = kf t \<longrightarrow> pcs ?S t' = Calling \<or> is_Returned (pcs ?S t')"
  proof -
    have "\<not> (\<exists>t'. kf t' = kf t \<and> in_flight (pcs ?S t'))"
    proof
      assume "\<exists>t'. kf t' = kf t \<and> in_flight (pcs ?S t')"
      then obtain t' where t': "kf t' = kf t" "in_flight (pcs ?S t')" by blast
      with q have "pcs ?S t' = Calling \<or> is_Returned (pcs ?S t')" by simp
      with t'(2) show False by (cases "pcs ?S t'") auto
    qed
    with sf_map_iff [OF inv, of "kf t"] have free: "sf_m ?S (kf t) = None" by simp
    from sf_alone [of ?S t kf fn, OF p free] free show ?thesis by simp
  qed
  from a b c d show ?thesis by blast
qed

theorem in_flight_record_witness:
  "sf_m (sf_run (\<lambda>t. ''k'') (\<lambda>t n. n) sf_init [0, 0]) ''k'' = Some 0 \<and>
   in_flight (pcs (sf_run (\<lambda>t. ''k'') (\<lambda>t n. n) sf_init [0, 0]) 0) \<and>
   pcs (sf_run (\<lambda>t. ''k'') (\<lambda>t n. n) sf_init [0, 0, 0, 0, 0]) 0 = Deleted 0 0 \<and>
   sf_m (sf_run (\<lambda>t. ''k'') (\<lambda>t n. n) sf_init [0, 0, 0, 0, 0]) ''k'' = None \<and>
   pcs (sf_run (\<lambda>t. ''k'') (\<lambda>t n. n) sf_init [0, 0, 0, 0, 0, 0]) 0 = Returned (Some 0) 0 (Some 0) \<and>
   pcs (sf_run (\<lambda>t. ''k'') (\<lambda>t n. n) sf_init [0, 0, 0, 0, 0, 0]) 1 = Calling \<and>
   sf_m (sf_run (\<lambda>t. ''k'') (\<lambda>t n. n) sf_init [0, 0, 0, 0, 0, 0]) ''k'' = None \<and>
   pcs (sf_run (\<lambda>t. ''k'') (\<lambda>t n. n) (sf_run (\<lambda>t. ''k'') (\<lambda>t n. n) sf_init [0, 0, 0, 0, 0, 0])
          [1, 1, 1, 1, 1, 1]) 1 = Returned (Some 1) 1 (Some 1) \<and>
   runs (sf_run (\<lambda>t. ''k'') (\<lambda>t n. n) (sf_run (\<lambda>t. ''k'') (\<lambda>t n. n) sf_init [0, 0, 0, 0, 0, 0])
          [1, 1, 1, 1, 1, 1]) = 2"
proof -
  let ?S = "sf_run (\<lambda>t. ''k'') (\<lambda>t n. n) sf_init [0, 0, 0, 0, 0, 0]"
  have e: "sf_m (sf_run (\<lambda>t. ''k'') (\<lambda>t n. n) sf_init [0, 0]) ''k'' = Some 0 \<and>
   in_flight (pcs (sf_run (\<lambda>t. ''k'') (\<lambda>t n. n) sf_init [0, 0]) 0) \<and>
   pcs (sf_run (\<lambda>t. ''k'') (\<lambda>t n. n) sf_init [0, 0, 0, 0, 0]) 0 = Deleted 0 0 \<and>
   sf_m (sf_run (\<lambda>t. ''k'') (\<lambda>t n. n) sf_init [0, 0, 0, 0, 0]) ''k'' = None \<and>
   pcs ?S 0 = Returned (Some 0) 0 (Some 0) \<and>
   pcs ?S 1 = Calling \<and>
   sf_m ?S ''k'' = None"
    by (simp add: sf_init_def sf_step_def)
  have q: "\<forall>t'. (\<lambda>t. ''k'') t' = (\<lambda>t. ''k'') 1 \<longrightarrow> pcs ?S t' = Calling \<or> is_Returned (pcs ?S t')"
    by (simp add: sf_init_def sf_step_def)
  have r: "length (calls ?S) = 1 \<and> runs ?S = 1"
    by (simp add: sf_init_def sf_step_def)
  from in_flight_record [of "\<lambda>t. ''k''" "\<lambda>t n. n" "[0, 0, 0, 0, 0, 0]" "''k''" 1] e q
  have "pcs (sf_run (\<lambda>t. ''k'') (\<lambda>t n. n) ?S [1, 1, 1, 1, 1, 1]) 1 =
        Returned (Some (runs ?S)) (length (calls ?S)) (Some (runs ?S)) \<and>
      runs (sf_run (\<lambda>t. ''k'') (\<lambda>t n. n) ?S [1, 1, 1, 1, 1, 1]) = runs ?S + 1"
    by blast
  with r e show ?thesis by simp
qed

end
